theory Spec2Isabelle
  imports Complex_Main
begin

section \<open>Pathname normalisation (\<open>Scm_NormalizePathname\<close>, system.c)\<close>

text \<open>
  A Scheme string is a pointer \<open>SCM_STRING_START\<close> to \<open>SCM_STRING_SIZE\<close> bytes.  The
  body need not be NUL-terminated (a substring shares the body of its parent), and
  the C code reads \<open>*str\<close> without looking at the size first, so the model keeps the
  byte that follows the body in memory as well.
\<close>

record ScmString =
  string_start :: string
  string_after :: char

definition NUL :: char where
  "NUL = CHR 0x00"

text \<open>\<open>*str\<close>: the first byte of the body, or the byte behind it when the size is 0.\<close>

definition deref_start :: "ScmString \<Rightarrow> char" where
  "deref_start s = (case string_start s of [] \<Rightarrow> string_after s | c # _ \<Rightarrow> c)"

text \<open>A string made by \<open>Scm_MakeString\<close> with \<open>SCM_MAKSTR_COPYING\<close>: a fresh, terminated body.\<close>

definition Scm_MakeString :: "string \<Rightarrow> ScmString" where
  "Scm_MakeString bytes = \<lparr>string_start = bytes, string_after = NUL\<rparr>"

text \<open>The flag bits of gauche.h, one boolean per bit.\<close>

record path_flags =
  SCM_PATH_ABSOLUTE :: bool
  SCM_PATH_EXPAND :: bool
  SCM_PATH_CANONICALIZE :: bool

text \<open>
  What the operating system answers: \<open>pw_dir\<close> of \<open>getpwuid(geteuid())\<close> and of
  \<open>getpwnam(user)\<close> (\<open>None\<close> for a NULL result), and the buffer filled by \<open>getcwd\<close>.
\<close>

record sys_env =
  getpwuid_dir :: "string option"
  getpwnam_dir :: "string \<Rightarrow> string option"
  getcwd_path :: "string option"

datatype path_error =
  No_Home_Directory
  | No_Such_User string
  | No_Current_Directory
  | Read_Before_Buffer

text \<open>\<open>strlen\<close>/\<open>strcpy\<close> stop at the first NUL byte.\<close>

definition c_string :: "string \<Rightarrow> string" where
  "c_string s = takeWhile (\<lambda>c. c \<noteq> NUL) s"

text \<open>
  The source pointer \<open>srcp\<close> is modelled by the bytes from \<open>srcp\<close> up to \<open>str+size\<close>
  (empty once \<open>srcp\<close> has reached or passed the end); the output buffer by the bytes
  \<open>buf[0..dstp)\<close> written so far.

  \<open>SKIP_SLASH\<close>: \<^verbatim>\<open>while (*srcp == '/' && srcp < str+size) { srcp++; }\<close>
\<close>

definition SKIP_SLASH :: "string \<Rightarrow> string" where
  "SKIP_SLASH src = dropWhile (\<lambda>c. c = CHR ''/'') src"

text \<open>
  \<^verbatim>\<open>while ((*dstp++ = *srcp++) != '/' && srcp < str+size) ;\<close>
  copies at least one byte and stops behind a slash or at the end of the input.
  It is only entered with \<open>srcp < str+size\<close>.
\<close>

fun copy_segment :: "string \<Rightarrow> string \<Rightarrow> string \<times> string" where
  "copy_segment [] dst = ([], dst)"
| "copy_segment (c # cs) dst =
     (if c = CHR ''/'' \<or> cs = [] then (cs, dst @ [c]) else copy_segment cs (dst @ [c]))"

text \<open>
  \<^verbatim>\<open>for (;q >= buf; q--) { if (*q == '/') break; }\<close>
  with \<open>q\<close> an index into the buffer (negative when the scan has passed \<open>buf\<close>).
\<close>

function scan_back :: "string \<Rightarrow> int \<Rightarrow> int" where
  "scan_back buf q =
     (if q \<ge> 0 then (if buf ! nat q = CHR ''/'' then q else scan_back buf (q - 1)) else q)"
  by pat_completeness auto

termination
  by (relation "measure (\<lambda>(buf, q). nat (q + 1))") auto

declare scan_back.simps [simp del]

lemma copy_segment_shorter:
  "src \<noteq> [] \<Longrightarrow> length (fst (copy_segment src dst)) < length src"
proof (induction src arbitrary: dst)
  case Nil
  then show ?case by simp
next
  case (Cons c cs)
  show ?case
  proof (cases "c = CHR ''/'' \<or> cs = []")
    case True
    then show ?thesis by auto
  next
    case False
    with Cons.IH [of "dst @ [c]"] show ?thesis by auto
  qed
qed

lemma SKIP_SLASH_length: "length (SKIP_SLASH src) \<le> length src"
  by (simp add: SKIP_SLASH_def length_dropWhile_le)

text \<open>The canonicalisation loop \<^verbatim>\<open>while (srcp < str+size) { ... }\<close>.\<close>

function canon_loop :: "string \<Rightarrow> string \<Rightarrow> bool \<Rightarrow> string" where
  "canon_loop [] dst bottomp = dst"
| "canon_loop (c # cs) dst bottomp =
     (if c = CHR ''.'' then
        (if cs = [] then dst @ [CHR ''.'']
         else if hd cs = CHR ''/'' then canon_loop (SKIP_SLASH cs) dst bottomp
         else if \<not> bottomp \<and> hd cs = CHR ''.'' \<and> (tl cs = [] \<or> hd (tl cs) = CHR ''/'') then
           (let q = scan_back dst (int (length dst) - 2) in
            if q \<ge> 0 then canon_loop (drop 3 (c # cs)) (take (nat (q + 1)) dst) bottomp
            else canon_loop (drop 3 (c # cs)) (dst @ [CHR ''.'', CHR ''.'', CHR ''/'']) True)
         else canon_loop (SKIP_SLASH (fst (copy_segment (c # cs) dst)))
                (snd (copy_segment (c # cs) dst)) bottomp)
      else canon_loop (SKIP_SLASH (fst (copy_segment (c # cs) dst)))
             (snd (copy_segment (c # cs) dst)) bottomp)"
  by pat_completeness auto

termination
proof (relation "measure (\<lambda>(src, dst, bottomp). length src)")
  show "wf (measure (\<lambda>(src, dst, bottomp). length src))" by simp
next
  fix c :: char and cs dst :: string and bottomp :: bool
  show "((SKIP_SLASH cs, dst, bottomp), c # cs, dst, bottomp)
          \<in> measure (\<lambda>(src, dst, bottomp). length src)"
    using SKIP_SLASH_length [of cs] by simp
next
  fix c :: char and cs dst :: string and bottomp :: bool and q :: int
  show "((drop 3 (c # cs), take (nat (q + 1)) dst, bottomp), c # cs, dst, bottomp)
          \<in> measure (\<lambda>(src, dst, bottomp). length src)"
    by simp
next
  fix c :: char and cs dst :: string and bottomp :: bool
  show "((drop 3 (c # cs), dst @ [CHR ''.'', CHR ''.'', CHR ''/''], True), c # cs, dst, bottomp)
          \<in> measure (\<lambda>(src, dst, bottomp). length src)"
    by simp
next
  fix c :: char and cs dst :: string and bottomp :: bool
  show "((SKIP_SLASH (fst (copy_segment (c # cs) dst)), snd (copy_segment (c # cs) dst), bottomp),
          c # cs, dst, bottomp) \<in> measure (\<lambda>(src, dst, bottomp). length src)"
    using SKIP_SLASH_length [of "fst (copy_segment (c # cs) dst)"]
      copy_segment_shorter [of "c # cs" dst]
    by simp
next
  fix c :: char and cs dst :: string and bottomp :: bool
  show "((SKIP_SLASH (fst (copy_segment (c # cs) dst)), snd (copy_segment (c # cs) dst), bottomp),
          c # cs, dst, bottomp) \<in> measure (\<lambda>(src, dst, bottomp). length src)"
    using SKIP_SLASH_length [of "fst (copy_segment (c # cs) dst)"]
      copy_segment_shorter [of "c # cs" dst]
    by simp
qed

declare canon_loop.simps [simp del]

text \<open>
  The \<open>~user\<close> branch.  The scan \<^verbatim>\<open>for (; p < str+size && *p != '/' && *p != '\0'; p++)\<close>
  starts behind the tilde; the bytes it passes are the user name, and \<open>p == str+1\<close>
  means that there are none.  The result is the source from \<open>srcp\<close> on and the buffer.
  \<^verbatim>\<open>*(dstp-1)\<close> with an empty \<open>pw_dir\<close> reads the byte in front of the buffer, which
  the model reports as \<open>Read_Before_Buffer\<close>.
\<close>

definition add_separator :: "string \<Rightarrow> string" where
  "add_separator dir = (if last dir \<noteq> CHR ''/'' then dir @ [CHR ''/''] else dir)"

definition tilde_branch :: "sys_env \<Rightarrow> string \<Rightarrow> path_error + (string \<times> string)" where
  "tilde_branch env str =
     (let user = takeWhile (\<lambda>c. c \<noteq> CHR ''/'' \<and> c \<noteq> NUL) (tl str);
          p = dropWhile (\<lambda>c. c \<noteq> CHR ''/'' \<and> c \<noteq> NUL) (tl str);
          pwd = (if user = []
                 then (case getpwuid_dir env of
                         None \<Rightarrow> Inl No_Home_Directory
                       | Some d \<Rightarrow> Inr d)
                 else (case getpwnam_dir env user of
                         None \<Rightarrow> Inl (No_Such_User user)
                       | Some d \<Rightarrow> Inr d))
      in case pwd of
           Inl e \<Rightarrow> Inl e
         | Inr d \<Rightarrow>
             (if c_string d = [] then Inl Read_Before_Buffer
              else Inr (SKIP_SLASH p, add_separator (c_string d))))"

text \<open>The \<open>SCM_PATH_ABSOLUTE\<close> branch: \<open>srcp\<close> stays at \<open>str\<close>.\<close>

definition absolute_branch :: "sys_env \<Rightarrow> string \<Rightarrow> path_error + (string \<times> string)" where
  "absolute_branch env str =
     (case getcwd_path env of
        None \<Rightarrow> Inl No_Current_Directory
      | Some p \<Rightarrow>
          (if c_string p = [] then Inl Read_Before_Buffer
           else Inr (str, add_separator (c_string p))))"

text \<open>The \<open>SCM_PATH_CANONICALIZE\<close> branch: a leading slash is kept, the slashes behind it skipped.\<close>

definition canonicalize_branch :: "ScmString \<Rightarrow> string \<times> string" where
  "canonicalize_branch pathname =
     (if deref_start pathname = CHR ''/''
      then (SKIP_SLASH (string_start pathname), [CHR ''/''])
      else (string_start pathname, []))"

text \<open>
  The common tail of the function: without \<open>SCM_PATH_CANONICALIZE\<close> the rest of the
  source is copied behind the buffer, with it the loop runs on the rest of the source.
\<close>

definition finish_path :: "path_flags \<Rightarrow> string \<times> string \<Rightarrow> string" where
  "finish_path flags sb =
     (if \<not> SCM_PATH_CANONICALIZE flags then snd sb @ fst sb
      else canon_loop (fst sb) (snd sb) False)"

definition Scm_NormalizePathname ::
  "sys_env \<Rightarrow> ScmString \<Rightarrow> path_flags \<Rightarrow> path_error + string" where
  "Scm_NormalizePathname env pathname flags =
     (let str = string_start pathname in
      if SCM_PATH_EXPAND flags \<and> length str \<ge> 1 \<and> hd str = CHR ''~'' then
        (case tilde_branch env str of
           Inl e \<Rightarrow> Inl e
         | Inr sb \<Rightarrow> Inr (finish_path flags sb))
      else if SCM_PATH_ABSOLUTE flags \<and> deref_start pathname \<noteq> CHR ''/'' then
        (case absolute_branch env str of
           Inl e \<Rightarrow> Inl e
         | Inr sb \<Rightarrow> Inr (finish_path flags sb))
      else if SCM_PATH_CANONICALIZE flags then
        Inr (finish_path flags (canonicalize_branch pathname))
      else Inr str)"

text \<open>The three single options, and an environment for the examples.\<close>

definition only_canonicalize :: path_flags where
  "only_canonicalize =
     \<lparr>SCM_PATH_ABSOLUTE = False, SCM_PATH_EXPAND = False, SCM_PATH_CANONICALIZE = True\<rparr>"

definition only_expand :: path_flags where
  "only_expand =
     \<lparr>SCM_PATH_ABSOLUTE = False, SCM_PATH_EXPAND = True, SCM_PATH_CANONICALIZE = False\<rparr>"

definition only_absolute :: path_flags where
  "only_absolute =
     \<lparr>SCM_PATH_ABSOLUTE = True, SCM_PATH_EXPAND = False, SCM_PATH_CANONICALIZE = False\<rparr>"

definition example_env :: sys_env where
  "example_env =
     \<lparr>getpwuid_dir = Some ''/home/u'',
      getpwnam_dir = (\<lambda>user. if user = ''root'' then Some ''/'' else None),
      getcwd_path = Some ''/work''\<rparr>"

text \<open>\<open>resolve(p, canonicalize)\<close> of the specification, on a terminated string.\<close>

definition canonicalize :: "sys_env \<Rightarrow> string \<Rightarrow> path_error + string" where
  "canonicalize env p = Scm_NormalizePathname env (Scm_MakeString p) only_canonicalize"

text \<open>
  The buffer of the canonicalisation branch: \<^verbatim>\<open>SCM_NEW_ATOMIC2(char*, size+1)\<close>; the
  bytes stored into it are the output and the NUL of \<^verbatim>\<open>*dstp = '\\0'\<close> behind it.
\<close>

definition canon_buffer_size :: "ScmString \<Rightarrow> nat" where
  "canon_buffer_size pathname = length (string_start pathname) + 1"

definition bytes_stored :: "string \<Rightarrow> nat" where
  "bytes_stored out = length out + 1"

text \<open>Which of the two prefixing branches the chain of conditions enters.\<close>

definition tilde_applies :: "ScmString \<Rightarrow> path_flags \<Rightarrow> bool" where
  "tilde_applies pathname flags =
     (SCM_PATH_EXPAND flags \<and> string_start pathname \<noteq> [] \<and> hd (string_start pathname) = CHR ''~'')"

definition absolute_applies :: "ScmString \<Rightarrow> path_flags \<Rightarrow> bool" where
  "absolute_applies pathname flags =
     (\<not> tilde_applies pathname flags \<and> SCM_PATH_ABSOLUTE flags \<and> deref_start pathname \<noteq> CHR ''/'')"

section \<open>Process replacement (\<open>Scm_SysExec\<close>, system.c)\<close>

text \<open>
  The descriptor table of the process: entry \<open>fd\<close> is the open file that descriptor
  \<open>fd\<close> refers to, \<open>None\<close> when the descriptor is closed.  The length of the table is
  the limit on descriptor numbers.
\<close>

type_synonym 'f fdtable = "'f option list"

definition fd_file :: "'f fdtable \<Rightarrow> int \<Rightarrow> 'f option" where
  "fd_file tbl fd = (if 0 \<le> fd \<and> fd < int (length tbl) then tbl ! nat fd else None)"

definition is_open :: "'f fdtable \<Rightarrow> int \<Rightarrow> bool" where
  "is_open tbl fd = (fd_file tbl fd \<noteq> None)"

text \<open>The lowest descriptor that is not open, which \<open>dup\<close> returns.\<close>

fun lowest_free :: "'f fdtable \<Rightarrow> nat option" where
  "lowest_free [] = None"
| "lowest_free (None # tbl) = Some 0"
| "lowest_free (Some f # tbl) = map_option Suc (lowest_free tbl)"

text \<open>
  \<open>dup\<close>, \<open>dup2\<close> and \<open>close\<close> of POSIX.  \<open>None\<close> stands for the result \<open>-1\<close>:
  \<open>dup\<close> fails on a descriptor that is not open and when the table is full, \<open>dup2\<close>
  on a source that is not open and on a target outside the table.  The code ignores
  the result of \<open>close\<close>.
\<close>

definition sys_dup :: "'f fdtable \<Rightarrow> int \<Rightarrow> (int \<times> 'f fdtable) option" where
  "sys_dup tbl fd =
     (case fd_file tbl fd of
        None \<Rightarrow> None
      | Some f \<Rightarrow>
          (case lowest_free tbl of
             None \<Rightarrow> None
           | Some k \<Rightarrow> Some (int k, tbl[k := Some f])))"

definition sys_dup2 :: "'f fdtable \<Rightarrow> int \<Rightarrow> int \<Rightarrow> 'f fdtable option" where
  "sys_dup2 tbl oldfd newfd =
     (case fd_file tbl oldfd of
        None \<Rightarrow> None
      | Some f \<Rightarrow>
          (if 0 \<le> newfd \<and> newfd < int (length tbl) then Some (tbl[nat newfd := Some f])
           else None))"

definition sys_close :: "'f fdtable \<Rightarrow> int \<Rightarrow> 'f fdtable" where
  "sys_close tbl fd =
     (if 0 \<le> fd \<and> fd < int (length tbl) then tbl[nat fd := None] else tbl)"

datatype panic = Dup_Failed | Dup2_Failed

text \<open>
  The arrays \<open>tofd\<close> and \<open>fromfd\<close> have the same length and are read at the same index,
  so the model keeps them as one list of pairs \<open>(tofd[k], fromfd[k])\<close>.  The inner loop
  \<^verbatim>\<open>for (j=i+1; j<iollen; j++)\<close> runs over the entries behind entry \<open>i\<close> and stores a
  duplicate of \<open>tofd[i]\<close> into every \<open>fromfd[j]\<close> that equals \<open>tofd[i]\<close>.
\<close>

fun redirect_later ::
  "int \<Rightarrow> (int \<times> int) list \<Rightarrow> 'f fdtable
     \<Rightarrow> (panic \<times> 'f fdtable) + ((int \<times> int) list \<times> 'f fdtable)" where
  "redirect_later t [] tbl = Inr ([], tbl)"
| "redirect_later t ((tofd, fromfd) # rest) tbl =
     (if t = fromfd then
        (case sys_dup tbl t of
           None \<Rightarrow> Inl (Dup_Failed, tbl)
         | Some (tmp, tbl1) \<Rightarrow>
             (case redirect_later t rest tbl1 of
                Inl p \<Rightarrow> Inl p
              | Inr (rest', tbl2) \<Rightarrow> Inr ((tofd, tmp) # rest', tbl2)))
      else
        (case redirect_later t rest tbl of
           Inl p \<Rightarrow> Inl p
         | Inr (rest', tbl2) \<Rightarrow> Inr ((tofd, fromfd) # rest', tbl2)))"

lemma redirect_later_length:
  "redirect_later t rest tbl = Inr (rest', tbl') \<Longrightarrow> length rest' = length rest"
  by (induction rest arbitrary: tbl rest' tbl')
    (auto split: if_splits option.splits sum.splits prod.splits)

text \<open>The outer loop \<^verbatim>\<open>for (i=0; i<iollen; i++)\<close>, on the entries from \<open>i\<close> on.\<close>

function remap ::
  "(int \<times> int) list \<Rightarrow> 'f fdtable \<Rightarrow> (panic \<times> 'f fdtable) + 'f fdtable" where
  "remap [] tbl = Inr tbl"
| "remap ((tofd, fromfd) # rest) tbl =
     (if tofd = fromfd then remap rest tbl
      else
        (case redirect_later tofd rest tbl of
           Inl p \<Rightarrow> Inl p
         | Inr (rest', tbl1) \<Rightarrow>
             (case sys_dup2 tbl1 fromfd tofd of
                None \<Rightarrow> Inl (Dup2_Failed, tbl1)
              | Some tbl2 \<Rightarrow> remap rest' tbl2)))"
  by pat_completeness auto

termination
  by (relation "measure (\<lambda>(m, tbl). length m)") (auto dest: redirect_later_length)

text \<open>The entry that decides a target: the last one that names it.\<close>

fun final_source :: "(int \<times> int) list \<Rightarrow> int \<Rightarrow> int option" where
  "final_source [] t = None"
| "final_source ((tofd, fromfd) # rest) t =
     (case final_source rest t of
        Some s \<Rightarrow> Some s
      | None \<Rightarrow> (if t = tofd then Some fromfd else None))"

text \<open>
  Scheme objects, as far as the functions here look at them.  A port is given by what
  \<open>Scm_PortFileNo\<close> (negative when the port has no descriptor), \<open>SCM_IPORTP\<close> and
  \<open>SCM_OPORTP\<close> answer for it; an fdset object by its address in the store.
\<close>

record ScmPort =
  port_fileno :: int
  port_input :: bool
  port_output :: bool

datatype ScmObj =
    SCM_FALSE
  | SCM_NIL
  | SCM_INT int
  | SCM_BIGNUM int
  | SCM_FLONUM real
  | SCM_STRING string
  | SCM_PORT ScmPort
  | SCM_SYS_FDSET nat
  | SCM_PAIR ScmObj ScmObj

fun SCM_PAIRP :: "ScmObj \<Rightarrow> bool" where
  "SCM_PAIRP (SCM_PAIR a d) = True"
| "SCM_PAIRP obj = False"

text \<open>
  Modelled from the spec: \<open>Scm_Length\<close> is defined in list.c, which is not among the
  sources.  The code relies on it for the number of elements of a proper list and for
  a negative result otherwise (\<open>iollen < 0\<close> is reported as "proper list required").
\<close>

fun Scm_Length :: "ScmObj \<Rightarrow> int" where
  "Scm_Length SCM_NIL = 0"
| "Scm_Length (SCM_PAIR a d) = (if Scm_Length d < 0 then Scm_Length d else Scm_Length d + 1)"
| "Scm_Length obj = - 1"


datatype exec_error =
    Bad_Argument_List
  | String_Required ScmObj
  | Proper_List_Required
  | Bad_Iomap_Specification ScmObj
  | Port_Without_Descriptor ScmObj
  | Input_Port_Required ScmObj
  | Output_Port_Required_Stdout ScmObj
  | Output_Port_Required_Stderr ScmObj
  | No_Open_Max

text \<open>The loop that fills \<open>argv\<close>; it runs over the \<open>argc\<close> elements of a proper list.\<close>

fun fill_argv :: "ScmObj \<Rightarrow> exec_error + string list" where
  "fill_argv (SCM_PAIR (SCM_STRING s) rest) =
     (case fill_argv rest of Inl e \<Rightarrow> Inl e | Inr argv \<Rightarrow> Inr (s # argv))"
| "fill_argv (SCM_PAIR a rest) = Inl (String_Required a)"
| "fill_argv obj = Inr []"

text \<open>The body of the loop over \<open>iomap\<close>: one entry gives \<open>(tofd[i], fromfd[i])\<close>.\<close>

fun check_entry :: "ScmObj \<Rightarrow> exec_error + (int \<times> int)" where
  "check_entry (SCM_PAIR (SCM_INT tofd) (SCM_INT fromfd)) = Inr (tofd, fromfd)"
| "check_entry (SCM_PAIR (SCM_INT tofd) (SCM_PORT port)) =
     (if port_fileno port < 0 then Inl (Port_Without_Descriptor (SCM_PORT port))
      else if tofd = 0 \<and> \<not> port_input port then Inl (Input_Port_Required (SCM_PORT port))
      else if tofd = 1 \<and> \<not> port_output port then Inl (Output_Port_Required_Stdout (SCM_PORT port))
      else if tofd = 2 \<and> \<not> port_output port then Inl (Output_Port_Required_Stderr (SCM_PORT port))
      else Inr (tofd, port_fileno port))"
| "check_entry elt = Inl (Bad_Iomap_Specification elt)"

fun check_iomap :: "ScmObj \<Rightarrow> exec_error + (int \<times> int) list" where
  "check_iomap (SCM_PAIR elt rest) =
     (case check_entry elt of
        Inl e \<Rightarrow> Inl e
      | Inr p \<Rightarrow> (case check_iomap rest of Inl e \<Rightarrow> Inl e | Inr m \<Rightarrow> Inr (p # m)))"
| "check_iomap obj = Inr []"

text \<open>
  The inner loop \<^verbatim>\<open>for (j=0; j<iollen; j++) { if (i == tofd[j]) break; }\<close>: the value of
  \<open>j\<close> behind it.
\<close>

fun target_index :: "int \<Rightarrow> int list \<Rightarrow> nat" where
  "target_index i [] = 0"
| "target_index i (t # ts) = (if i = t then 0 else Suc (target_index i ts))"

text \<open>\<^verbatim>\<open>for (i=0; i<maxfd; i++) { ...; if (j == iollen) close(i); }\<close>, from \<open>i\<close> on.\<close>

function close_loop :: "int \<Rightarrow> int \<Rightarrow> int list \<Rightarrow> 'f fdtable \<Rightarrow> 'f fdtable" where
  "close_loop i maxfd tofd tbl =
     (if i < maxfd
      then close_loop (i + 1) maxfd tofd
             (if target_index i tofd = length tofd then sys_close tbl i else tbl)
      else tbl)"
  by pat_completeness auto

termination
  by (relation "measure (\<lambda>(i, maxfd, tofd, tbl). nat (maxfd - i))") auto

declare close_loop.simps [simp del]

text \<open>
  How a call ends: with a Scheme error raised by \<open>Scm_Error\<close> (which the caller can
  catch), with \<open>Scm_Panic\<close>, or in \<open>execvp\<close> (which replaces the process, or fails into
  \<open>Scm_Panic\<close>).  Each carries the descriptor table of that moment.  \<open>open_max\<close> is the
  answer of \<open>sysconf(_SC_OPEN_MAX)\<close>.
\<close>

datatype 'f outcome =
    Raised exec_error "'f fdtable"
  | Panicked panic "'f fdtable"
  | Execvp string "string list" "'f fdtable"

definition Scm_SysExec ::
  "int \<Rightarrow> string \<Rightarrow> ScmObj \<Rightarrow> ScmObj \<Rightarrow> 'f fdtable \<Rightarrow> 'f outcome" where
  "Scm_SysExec open_max file args iomap tbl =
     (if Scm_Length args < 1 then Raised Bad_Argument_List tbl
      else
        (case fill_argv args of
           Inl e \<Rightarrow> Raised e tbl
         | Inr argv \<Rightarrow>
             (if SCM_PAIRP iomap then
                (if Scm_Length iomap < 0 then Raised Proper_List_Required tbl
                 else
                   (case check_iomap iomap of
                      Inl e \<Rightarrow> Raised e tbl
                    | Inr m \<Rightarrow>
                        (if open_max < 0 then Raised No_Open_Max tbl
                         else
                           (case remap m tbl of
                              Inl (p, tbl1) \<Rightarrow> Panicked p tbl1
                            | Inr tbl1 \<Rightarrow>
                                Execvp file argv (close_loop 0 open_max (map fst m) tbl1)))))
              else Execvp file argv tbl)))"

text \<open>Values for the examples: a proper list, two ports, a descriptor table.\<close>

definition scm_list :: "ScmObj list \<Rightarrow> ScmObj" where
  "scm_list xs = foldr SCM_PAIR xs SCM_NIL"



definition example_table :: "string fdtable" where
  "example_table = [Some ''in'', Some ''out'', Some ''err'', Some ''file'', None, None]"

text \<open>The number of descriptors that are not open.\<close>

definition free_count :: "'f fdtable \<Rightarrow> nat" where
  "free_count tbl = length (filter (\<lambda>x. x = None) tbl)"


section \<open>Waiting on descriptor sets (\<open>select\<close>, system.c)\<close>

text \<open>
  An fdset object holds the cached maximum \<open>maxfd\<close> and the \<open>fd_set\<close> itself.  The
  objects live in a store; \<open>SCM_NEW\<close> takes the next unused address, so the addresses
  below \<open>next_addr\<close> are the objects that exist.  The store also records the calls of
  the operating system's \<open>select\<close> that have been made: the \<open>nfds\<close> argument, the
  contents of the three sets passed (\<open>None\<close> for a NULL pointer) and the timeout of
  each.
\<close>

record ScmSysFdset =
  maxfd :: int
  fdset :: "int set"

type_synonym timeval = "int \<times> int"

type_synonym select_call =
  "int \<times> int set option \<times> int set option \<times> int set option \<times> timeval option"

record world =
  objs :: "nat \<Rightarrow> ScmSysFdset"
  next_addr :: nat
  select_calls :: "select_call list"

datatype select_error =
    Fdset_Required ScmObj
  | Bad_Timeval ScmObj
  | Select_Failed

text \<open>\<open>fdset_copy\<close>: a new object with the same \<open>maxfd\<close> and the same \<open>fd_set\<close>.\<close>

definition fdset_copy :: "nat \<Rightarrow> world \<Rightarrow> nat \<times> world" where
  "fdset_copy a w =
     (next_addr w,
      w\<lparr>objs := (objs w)(next_addr w := \<lparr>maxfd = maxfd (objs w a), fdset = fdset (objs w a)\<rparr>),
        next_addr := next_addr w + 1\<rparr>)"

fun select_checkfd :: "ScmObj \<Rightarrow> select_error + nat option" where
  "select_checkfd SCM_FALSE = Inr None"
| "select_checkfd (SCM_SYS_FDSET a) = Inr (Some a)"
| "select_checkfd fds = Inl (Fdset_Required fds)"

text \<open>
  \<open>Scm_GetInteger\<close>, \<open>Scm_IntegerP\<close>, \<open>Scm_Sign\<close> and \<open>Scm_BignumDivSI\<close> are defined in
  number.c and bignum.c, which are not among the sources; \<open>select_timeval\<close> takes them
  as parameters.
\<close>

record numlib =
  Scm_GetInteger :: "ScmObj \<Rightarrow> int"
  Scm_IntegerP :: "ScmObj \<Rightarrow> bool"
  Scm_Sign :: "ScmObj \<Rightarrow> int"
  Scm_BignumDivSI :: "ScmObj \<Rightarrow> int \<Rightarrow> ScmObj \<times> int"

text \<open>
  \<^verbatim>\<open>int val = SCM_INT_VALUE(timeout);\<close> stores the value of the fixnum, a \<open>long\<close>, into
  an \<open>int\<close> of 32 bits: a value outside the range of \<open>int\<close> wraps around.  (The other
  branches keep their value in a \<open>long\<close>.)
\<close>

definition c_int :: "int \<Rightarrow> int" where
  "c_int v = (v + 2147483648) mod 4294967296 - 2147483648"

text \<open>
  \<open>select_timeval\<close>: \<open>Inr None\<close> is the NULL pointer (no timeout).  The values divided
  are not negative, so C's \<open>/\<close> and \<open>%\<close> are \<open>div\<close> and \<open>mod\<close>.
\<close>

fun select_timeval :: "numlib \<Rightarrow> ScmObj \<Rightarrow> select_error + timeval option" where
  "select_timeval nl SCM_FALSE = Inr None"
| "select_timeval nl (SCM_INT v) =
     (let val = c_int v in
      if val < 0 then Inl (Bad_Timeval (SCM_INT v))
      else Inr (Some (val div 1000000, val mod 1000000)))"
| "select_timeval nl (SCM_BIGNUM n) =
     (if Scm_Sign nl (SCM_BIGNUM n) < 0 then Inl (Bad_Timeval (SCM_BIGNUM n))
      else Inr (Some (Scm_GetInteger nl (fst (Scm_BignumDivSI nl (SCM_BIGNUM n) 1000000)),
                      snd (Scm_BignumDivSI nl (SCM_BIGNUM n) 1000000))))"
| "select_timeval nl (SCM_FLONUM x) =
     (if Scm_GetInteger nl (SCM_FLONUM x) < 0 then Inl (Bad_Timeval (SCM_FLONUM x))
      else Inr (Some (Scm_GetInteger nl (SCM_FLONUM x) div 1000000,
                      Scm_GetInteger nl (SCM_FLONUM x) mod 1000000)))"
| "select_timeval nl (SCM_PAIR sec (SCM_PAIR usec rest)) =
     (if \<not> Scm_IntegerP nl sec \<or> \<not> Scm_IntegerP nl usec
      then Inl (Bad_Timeval (SCM_PAIR sec (SCM_PAIR usec rest)))
      else if Scm_GetInteger nl sec < 0 \<or> Scm_GetInteger nl usec < 0
      then Inl (Bad_Timeval (SCM_PAIR sec (SCM_PAIR usec rest)))
      else Inr (Some (Scm_GetInteger nl sec, Scm_GetInteger nl usec)))"
| "select_timeval nl timeout = Inl (Bad_Timeval timeout)"

text \<open>
  The operating system's \<open>select\<close> (behind \<open>Scm_SysCall\<close>, which repeats an interrupted
  call): from \<open>nfds\<close>, the three sets (\<open>None\<close> for a NULL pointer) and the timeout to
  the result and the contents it leaves in the three sets.
\<close>

type_synonym os_select =
  "int \<Rightarrow> int set option \<Rightarrow> int set option \<Rightarrow> int set option \<Rightarrow> timeval option
     \<Rightarrow> int \<times> int set \<times> int set \<times> int set"

definition fdset_of :: "world \<Rightarrow> nat option \<Rightarrow> int set option" where
  "fdset_of w p = map_option (\<lambda>a. fdset (objs w a)) p"

text \<open>\<open>select\<close> stores through the pointer \<open>&fds->fdset\<close>; nothing is stored for NULL.\<close>

definition store_fdset :: "nat option \<Rightarrow> int set \<Rightarrow> world \<Rightarrow> world" where
  "store_fdset p s w =
     (case p of
        None \<Rightarrow> w
      | Some a \<Rightarrow> w\<lparr>objs := (objs w)(a := (objs w a)\<lparr>fdset := s\<rparr>)\<rparr>)"

definition fdset_obj :: "nat option \<Rightarrow> ScmObj" where
  "fdset_obj p = (case p of None \<Rightarrow> SCM_FALSE | Some a \<Rightarrow> SCM_SYS_FDSET a)"

definition select_maxfds :: "world \<Rightarrow> nat option \<Rightarrow> nat option \<Rightarrow> nat option \<Rightarrow> int" where
  "select_maxfds w rfds wfds efds =
     (let maxfds = 0;
          maxfds = (case rfds of Some r \<Rightarrow> maxfd (objs w r) | None \<Rightarrow> maxfds);
          maxfds = (case wfds of
                      Some a \<Rightarrow> (if maxfd (objs w a) > maxfds then maxfd (objs w a) else maxfds)
                    | None \<Rightarrow> maxfds);
          maxfds = (case efds of
                      Some a \<Rightarrow> (if maxfd (objs w a) > maxfds then maxfd (objs w a) else maxfds)
                    | None \<Rightarrow> maxfds)
      in maxfds)"

text \<open>
  \<open>select_int\<close>.  The argument \<open>select_timeval(timeout, &tm)\<close> is evaluated before
  \<open>select\<close> is entered, and \<open>Scm_Error\<close> does not return.
\<close>

definition select_int ::
  "numlib \<Rightarrow> os_select \<Rightarrow> nat option \<Rightarrow> nat option \<Rightarrow> nat option \<Rightarrow> ScmObj \<Rightarrow> world
     \<Rightarrow> (select_error + int \<times> ScmObj \<times> ScmObj \<times> ScmObj) \<times> world" where
  "select_int nl sel rfds wfds efds timeout w =
     (case select_timeval nl timeout of
        Inl e \<Rightarrow> (Inl e, w)
      | Inr tm \<Rightarrow>
          (let nfds = select_maxfds w rfds wfds efds + 1;
               res = sel nfds (fdset_of w rfds) (fdset_of w wfds) (fdset_of w efds) tm;
               numfds = fst res;
               w1 = store_fdset efds (snd (snd (snd res)))
                      (store_fdset wfds (fst (snd (snd res)))
                         (store_fdset rfds (fst (snd res)) w));
               w2 = w1\<lparr>select_calls :=
                      select_calls w1
                      @ [(nfds, fdset_of w rfds, fdset_of w wfds, fdset_of w efds, tm)]\<rparr>
           in if numfds < 0 then (Inl Select_Failed, w2)
              else (Inr (numfds, fdset_obj rfds, fdset_obj wfds, fdset_obj efds), w2)))"

definition copy_if_present :: "nat option \<Rightarrow> world \<Rightarrow> nat option \<times> world" where
  "copy_if_present p w =
     (case p of
        None \<Rightarrow> (None, w)
      | Some a \<Rightarrow> (Some (fst (fdset_copy a w)), snd (fdset_copy a w)))"

definition Scm_SysSelect ::
  "numlib \<Rightarrow> os_select \<Rightarrow> ScmObj \<Rightarrow> ScmObj \<Rightarrow> ScmObj \<Rightarrow> ScmObj \<Rightarrow> world
     \<Rightarrow> (select_error + int \<times> ScmObj \<times> ScmObj \<times> ScmObj) \<times> world" where
  "Scm_SysSelect nl sel rfds wfds efds timeout w =
     (case select_checkfd rfds of
        Inl err \<Rightarrow> (Inl err, w)
      | Inr r \<Rightarrow>
          (case select_checkfd wfds of
             Inl err \<Rightarrow> (Inl err, w)
           | Inr wr \<Rightarrow>
               (case select_checkfd efds of
                  Inl err \<Rightarrow> (Inl err, w)
                | Inr e \<Rightarrow>
                    (let rc = copy_if_present r w;
                         wc = copy_if_present wr (snd rc);
                         ec = copy_if_present e (snd wc)
                     in select_int nl sel (fst rc) (fst wc) (fst ec) timeout (snd ec)))))"

definition Scm_SysSelectX ::
  "numlib \<Rightarrow> os_select \<Rightarrow> ScmObj \<Rightarrow> ScmObj \<Rightarrow> ScmObj \<Rightarrow> ScmObj \<Rightarrow> world
     \<Rightarrow> (select_error + int \<times> ScmObj \<times> ScmObj \<times> ScmObj) \<times> world" where
  "Scm_SysSelectX nl sel rfds wfds efds timeout w =
     (case select_checkfd rfds of
        Inl err \<Rightarrow> (Inl err, w)
      | Inr r \<Rightarrow>
          (case select_checkfd wfds of
             Inl err \<Rightarrow> (Inl err, w)
           | Inr wr \<Rightarrow>
               (case select_checkfd efds of
                  Inl err \<Rightarrow> (Inl err, w)
                | Inr e \<Rightarrow> select_int nl sel r wr e timeout w)))"

text \<open>
  The number an object stands for is negative; the object is a number.
\<close>

fun scm_negative :: "ScmObj \<Rightarrow> bool" where
  "scm_negative (SCM_INT n) = (n < 0)"
| "scm_negative (SCM_BIGNUM n) = (n < 0)"
| "scm_negative (SCM_FLONUM x) = (x < 0)"
| "scm_negative obj = False"

fun scm_number :: "ScmObj \<Rightarrow> bool" where
  "scm_number (SCM_INT n) = True"
| "scm_number (SCM_BIGNUM n) = True"
| "scm_number (SCM_FLONUM x) = True"
| "scm_number obj = False"

text \<open>
  What is taken for granted of the helpers that are not among the sources:
  \<open>Scm_IntegerP\<close> holds of fixnums and bignums, of a flonum only when it has no
  fraction, and of nothing that is not a number; \<open>Scm_GetInteger\<close> gives the value of a
  fixnum, keeps the sign of a bignum, and converts a flonum as C converts a \<open>double\<close> to
  a \<open>long\<close>, dropping the fraction, so that the result is negative from \<open>-1\<close> downwards;
  \<open>Scm_Sign\<close> is negative for the negative bignums.
\<close>

definition helpers_sound :: "numlib \<Rightarrow> bool" where
  "helpers_sound nl =
     ((\<forall>n. Scm_IntegerP nl (SCM_INT n)) \<and> (\<forall>n. Scm_IntegerP nl (SCM_BIGNUM n))
      \<and> (\<forall>x. Scm_IntegerP nl (SCM_FLONUM x) = (x \<in> \<int>))
      \<and> (\<forall>obj. Scm_IntegerP nl obj \<longrightarrow> scm_number obj)
      \<and> (\<forall>n. Scm_GetInteger nl (SCM_INT n) = n)
      \<and> (\<forall>n. (Scm_GetInteger nl (SCM_BIGNUM n) < 0) = (n < 0))
      \<and> (\<forall>x. (Scm_GetInteger nl (SCM_FLONUM x) < 0) = (x \<le> - 1))
      \<and> (\<forall>n. (Scm_Sign nl (SCM_BIGNUM n) < 0) = (n < 0)))"

text \<open>
  Modelled from the spec: the numeric helpers of number.c and bignum.c, for the examples.
  A fixnum or bignum is an integer with the sign and the value of the number it stands
  for (a bignum beyond the range of a \<open>long\<close> of 64 bits gives the nearest \<open>long\<close>); a
  flonum is an integer when it has no fraction, and its value as a \<open>long\<close> is the
  number without its fraction.
\<close>

definition c_numlib :: numlib where
  "c_numlib =
     \<lparr>Scm_GetInteger =
        (\<lambda>obj. case obj of
           SCM_INT n \<Rightarrow> n
         | SCM_BIGNUM n \<Rightarrow> max (- 9223372036854775808) (min 9223372036854775807 n)
         | SCM_FLONUM x \<Rightarrow> (if x < 0 then - \<lfloor>- x\<rfloor> else \<lfloor>x\<rfloor>)
         | _ \<Rightarrow> 0),
      Scm_IntegerP =
        (\<lambda>obj. case obj of
           SCM_INT n \<Rightarrow> True
         | SCM_BIGNUM n \<Rightarrow> True
         | SCM_FLONUM x \<Rightarrow> x = of_int \<lfloor>x\<rfloor>
         | _ \<Rightarrow> False),
      Scm_Sign =
        (\<lambda>obj. case obj of
           SCM_INT n \<Rightarrow> sgn n
         | SCM_BIGNUM n \<Rightarrow> sgn n
         | SCM_FLONUM x \<Rightarrow> (if x < 0 then - 1 else if x = 0 then 0 else 1)
         | _ \<Rightarrow> 0),
      Scm_BignumDivSI =
        (\<lambda>obj d. case obj of
           SCM_BIGNUM n \<Rightarrow> (SCM_BIGNUM (n div d), n mod d)
         | _ \<Rightarrow> (SCM_INT 0, 0))\<rparr>"

text \<open>
  A store with one set, and a \<open>select\<close> for which descriptor 3 is readable and nothing
  else is ready: it leaves 3 in the read set when 3 was in it.
\<close>

definition example_world :: world where
  "example_world =
     \<lparr>objs = (\<lambda>a. \<lparr>maxfd = - 1, fdset = {}\<rparr>)(0 := \<lparr>maxfd = 5, fdset = {3, 5}\<rparr>),
      next_addr = 1,
      select_calls = []\<rparr>"

definition example_select :: os_select where
  "example_select nfds r w e tm =
     (let ready = (case r of None \<Rightarrow> {} | Some s \<Rightarrow> s \<inter> {3})
      in (int (card ready), ready, {}, {}))"

section \<open>Properties of pathname normalisation\<close>

subsection \<open>Facts about the backward scan and the loop\<close>

lemma scan_back_found:
  "CHR ''/'' \<notin> set seg \<Longrightarrow>
   scan_back (pre @ CHR ''/'' # seg @ suf) (int (length pre) + int (length seg)) = int (length pre)"
proof (induction seg arbitrary: suf rule: rev_induct)
  case Nil
  show ?case by (subst scan_back.simps) simp
next
  case (snoc x xs)
  have x: "x \<noteq> CHR ''/''" using snoc.prems by auto
  have nth: "(pre @ CHR ''/'' # (xs @ [x]) @ suf) ! nat (int (length pre) + int (length (xs @ [x]))) = x"
    by (simp add: nth_append nat_add_distrib)
  have step: "int (length pre) + int (length (xs @ [x])) - 1 = int (length pre) + int (length xs)"
    by simp
  have "scan_back (pre @ CHR ''/'' # (xs @ [x]) @ suf) (int (length pre) + int (length (xs @ [x])))
        = scan_back (pre @ CHR ''/'' # (xs @ [x]) @ suf) (int (length pre) + int (length xs))"
    by (subst scan_back.simps) (simp only: nth x step if_False, simp)
  also have "\<dots> = int (length pre)"
    using snoc.IH [of "x # suf"] snoc.prems by simp
  finally show ?case .
qed

lemma scan_back_none:
  "\<forall>k. k \<le> n \<longrightarrow> buf ! k \<noteq> CHR ''/'' \<Longrightarrow> scan_back buf (int n) < 0"
proof (induction n)
  case 0
  show ?case using 0 by (subst scan_back.simps, subst scan_back.simps) simp
next
  case (Suc n)
  have "scan_back buf (int (Suc n)) = scan_back buf (int n)"
    using Suc.prems by (subst scan_back.simps) simp
  with Suc show ?case by simp
qed

lemma scan_back_negative: "q < 0 \<Longrightarrow> scan_back buf q = q"
  by (subst scan_back.simps) simp

lemma scan_back_absent:
  "CHR ''/'' \<notin> set (butlast dst) \<Longrightarrow> scan_back dst (int (length dst) - 2) < 0"
proof (cases "length dst < 2")
  case True
  then show ?thesis by (simp add: scan_back_negative)
next
  case False
  assume a: "CHR ''/'' \<notin> set (butlast dst)"
  from False obtain n where n: "length dst = n + 2" by (metis add.commute le_Suc_ex not_less)
  have "\<forall>k. k \<le> n \<longrightarrow> dst ! k \<noteq> CHR ''/''"
  proof (intro allI impI)
    fix k assume "k \<le> n"
    then have "k < length (butlast dst)" using n by simp
    then have "butlast dst ! k \<in> set (butlast dst)" by (rule nth_mem)
    moreover have "butlast dst ! k = dst ! k" using \<open>k < length (butlast dst)\<close> by (simp add: nth_butlast)
    ultimately show "dst ! k \<noteq> CHR ''/''" using a by metis
  qed
  then have "scan_back dst (int n) < 0" by (rule scan_back_none)
  then show ?thesis using n by simp
qed

lemma copy_segment_extends: "\<exists>ys. snd (copy_segment src dst) = dst @ ys"
proof (induction src arbitrary: dst)
  case Nil
  show ?case by simp
next
  case (Cons c cs)
  show ?case
  proof (cases "c = CHR ''/'' \<or> cs = []")
    case True
    then show ?thesis by auto
  next
    case False
    from Cons.IH [of "dst @ [c]"] obtain ys where "snd (copy_segment cs (dst @ [c])) = (dst @ [c]) @ ys" ..
    with False show ?thesis by auto
  qed
qed

lemma canon_loop_bottom_extends:
  "bottomp \<Longrightarrow> \<exists>ys. canon_loop src dst bottomp = dst @ ys"
proof (induction src dst bottomp rule: canon_loop.induct)
  case (1 dst bottomp)
  show ?case by (simp add: canon_loop.simps)
next
  case (2 c cs dst bottomp)
  let ?cp = "copy_segment (c # cs) dst"
  obtain ys where ys: "snd ?cp = dst @ ys" using copy_segment_extends by blast
  have copy: "\<exists>zs. canon_loop (SKIP_SLASH (fst ?cp)) (snd ?cp) bottomp = dst @ zs"
    if ih: "\<exists>zs. canon_loop (SKIP_SLASH (fst ?cp)) (snd ?cp) bottomp = snd ?cp @ zs"
  proof -
    from ih obtain zs where "canon_loop (SKIP_SLASH (fst ?cp)) (snd ?cp) bottomp = snd ?cp @ zs" ..
    then show ?thesis using ys by simp
  qed
  show ?case
  proof (cases "c = CHR ''.''")
    case False
    then show ?thesis using 2(5) [OF False "2.prems"] copy
      by (subst canon_loop.simps) simp
  next
    case dot: True
    show ?thesis
    proof (cases "cs = []")
      case True
      then show ?thesis using dot by (subst canon_loop.simps) simp
    next
      case ne: False
      show ?thesis
      proof (cases "hd cs = CHR ''/''")
        case True
        then show ?thesis using dot ne 2(1) [OF dot ne True "2.prems"]
          by (subst canon_loop.simps) simp
      next
        case False
        then show ?thesis using dot ne "2.prems" 2(4) [OF dot ne False _ "2.prems"] copy
          by (subst canon_loop.simps) simp
      qed
    qed
  qed
qed

lemmas canon_eval = canonicalize_def Scm_NormalizePathname_def Scm_MakeString_def
  only_canonicalize_def finish_path_def canonicalize_branch_def deref_start_def SKIP_SLASH_def
  canon_loop.simps scan_back.simps

lemma dotdot_backs_up:
  assumes rest: "rest = [] \<or> hd rest = CHR ''/''" and seg: "CHR ''/'' \<notin> set seg"
  shows "canon_loop (CHR ''.'' # CHR ''.'' # rest) (pre @ [CHR ''/''] @ seg @ [c]) False
         = canon_loop (tl rest) (pre @ [CHR ''/'']) False"
proof -
  have q: "scan_back (pre @ [CHR ''/''] @ seg @ [c]) (int (length (pre @ [CHR ''/''] @ seg @ [c])) - 2)
           = int (length pre)"
    using scan_back_found [OF seg, of pre "[c]"] by simp
  have d: "drop 3 (CHR ''.'' # CHR ''.'' # rest) = tl rest"
    by (cases rest) simp_all
  show ?thesis
    using rest by (subst canon_loop.simps) (simp only: q d Let_def, auto simp: nat_add_distrib)
qed

lemma dotdot_at_bottom:
  assumes rest: "rest = [] \<or> hd rest = CHR ''/''" and none: "CHR ''/'' \<notin> set (butlast dst)"
  shows "canon_loop (CHR ''.'' # CHR ''.'' # rest) dst False
         = canon_loop (tl rest) (dst @ [CHR ''.'', CHR ''.'', CHR ''/'']) True"
proof -
  have q: "\<not> scan_back dst (int (length dst) - 2) \<ge> 0"
    using scan_back_absent [OF none] by simp
  have d: "drop 3 (CHR ''.'' # CHR ''.'' # rest) = tl rest"
    by (cases rest) simp_all
  show ?thesis
    using rest by (subst canon_loop.simps) (simp only: q d Let_def, auto)
qed

lemma dotdot_literal:
  assumes rest: "rest = [] \<or> hd rest = CHR ''/''"
  shows "canon_loop (CHR ''.'' # CHR ''.'' # rest) dst True
         = canon_loop (SKIP_SLASH (tl rest)) (dst @ [CHR ''.'', CHR ''.''] @ take 1 rest) True"
proof (cases rest)
  case Nil
  then show ?thesis by (subst canon_loop.simps) simp
next
  case (Cons r rs)
  with rest have "r = CHR ''/''" by simp
  with Cons show ?thesis by (subst canon_loop.simps) simp
qed

lemmas tilde_eval = Scm_NormalizePathname_def Scm_MakeString_def tilde_branch_def
  finish_path_def add_separator_def c_string_def NUL_def SKIP_SLASH_def example_env_def
  only_expand_def

subsection \<open>The \<open>..\<close> segment\<close>

text \<open>
  What the loop does at a segment equal to \<open>..\<close> (followed by a slash or by the end of
  the input).  With the below-root flag clear it looks for a slash in the output at or
  before the last byte but one.  When there is one, the output is cut behind the last
  such slash, which removes the segment emitted before.  When there is none, it
  appends \<open>../\<close> and sets the flag.  With the flag set a \<open>..\<close> segment is copied as it
  stands and the output is never cut again.
\<close>

theorem canon_dotdot_segment:
  "(rest = [] \<or> hd rest = CHR ''/'') \<longrightarrow>
     (CHR ''/'' \<notin> set seg \<longrightarrow>
        canon_loop (''..'' @ rest) (pre @ ''/'' @ seg @ [c]) False
        = canon_loop (tl rest) (pre @ ''/'') False)
   \<and> (CHR ''/'' \<notin> set (butlast dst) \<longrightarrow>
        canon_loop (''..'' @ rest) dst False = canon_loop (tl rest) (dst @ ''../'') True)
   \<and> canon_loop (''..'' @ rest) dst True
        = canon_loop (SKIP_SLASH (tl rest)) (dst @ ''..'' @ take 1 rest) True
   \<and> (\<exists>ys. canon_loop src dst True = dst @ ys)
   \<and> canonicalize env ''/a/b/../c'' = Inr ''/a/c''
   \<and> canonicalize env ''../../x'' = Inr ''../../x''"
proof (intro impI conjI)
  assume rest: "rest = [] \<or> hd rest = CHR ''/''"
  show "canon_loop (''..'' @ rest) dst True
        = canon_loop (SKIP_SLASH (tl rest)) (dst @ ''..'' @ take 1 rest) True"
    using dotdot_literal [OF rest, of dst] by simp
  show "\<exists>ys. canon_loop src dst True = dst @ ys"
    by (rule canon_loop_bottom_extends) simp
  show "canonicalize env ''/a/b/../c'' = Inr ''/a/c''"
    by (simp add: canon_eval)
  show "canonicalize env ''../../x'' = Inr ''../../x''"
    by (simp add: canon_eval)
  {
    assume "CHR ''/'' \<notin> set seg"
    from dotdot_backs_up [OF rest this, of pre c]
    show "canon_loop (''..'' @ rest) (pre @ ''/'' @ seg @ [c]) False
          = canon_loop (tl rest) (pre @ ''/'') False"
      by simp
  }
  {
    assume "CHR ''/'' \<notin> set (butlast dst)"
    from dotdot_at_bottom [OF rest this]
    show "canon_loop (''..'' @ rest) dst False = canon_loop (tl rest) (dst @ ''../'') True"
      by simp
  }
qed

theorem canon_dotdot_segment_witness:
  "canon_loop ''../c'' ''/a/b/'' False = canon_loop ''c'' ''/a/'' False
   \<and> canon_loop ''../x'' [] False = canon_loop ''x'' ''../'' True
   \<and> canon_loop ''../x'' ''../'' True = canon_loop ''x'' ''../../'' True"
  using canon_dotdot_segment [where rest = "''/c''" and seg = "''b''" and pre = "''/a''"
      and c = "CHR ''/''" and dst = "[]"]
    canon_dotdot_segment [where rest = "''/x''" and seg = "[]" and pre = "[]"
      and c = "CHR ''/''" and dst = "[]"]
    canon_dotdot_segment [where rest = "''/x''" and seg = "[]" and pre = "[]"
      and c = "CHR ''/''" and dst = "''../''"]
  by (simp add: SKIP_SLASH_def)

text \<open>
  C2.  The claim: a segment equal to \<open>..\<close> removes the segment emitted before it
  whenever there is one, and only when there is none is \<open>../\<close> emitted and the
  below-root flag set.  A segment that has a slash in front of it is removed:
  \<open>/a/../b\<close> gives \<open>/b\<close>.  The first segment of a relative path has been emitted as
  well, but it is not removed: behind \<open>a/\<close> the backward scan, which starts at the last
  byte but one and stops at the start of the buffer, finds no slash, so \<open>../\<close> is
  appended and the flag is set.  \<open>a/../b\<close> comes back as \<open>a/../b\<close>, where the claim has
  \<open>b\<close>.
\<close>

theorem relative_first_segment_kept:
  "canon_loop ''../b'' ''a/'' False = canon_loop ''b'' ''a/../'' True
   \<and> canonicalize example_env ''a/../b'' = Inr ''a/../b''
   \<and> canonicalize example_env ''/a/../b'' = Inr ''/b''"
  by (simp add: canon_eval)

subsection \<open>Idempotence and the size of the buffer\<close>

text \<open>
  C3.  Canonicalising twice is not the same as canonicalising once: the \<open>..\<close> case
  advances by three bytes without \<open>SKIP_SLASH\<close>, so a second slash behind \<open>..\<close> is
  copied into the output, and only a second run collapses it.
\<close>

theorem canonicalize_twice_differs:
  "canonicalize example_env ''/a/..//b'' = Inr ''//b''
   \<and> canonicalize example_env ''//b'' = Inr ''/b''"
  by (simp add: canon_eval)

text \<open>
  C10.  For the input \<open>..\<close> the loop stores the three bytes \<open>../\<close> and the closing NUL
  into a buffer of \<open>size+1 = 3\<close> bytes.
\<close>

theorem canonicalize_overruns_buffer:
  "canonicalize example_env ''..'' = Inr ''../''
   \<and> bytes_stored ''../'' > canon_buffer_size (Scm_MakeString ''..'')"
  by (simp add: canon_eval bytes_stored_def canon_buffer_size_def)

text \<open>
  The other examples of the specification: a \<open>.\<close> segment is dropped, a run of slashes
  collapses, and a lone \<open>.\<close> at the very end is kept.
\<close>

theorem canonicalize_dot_examples:
  "canonicalize env ''a/./b/'' = Inr ''a/b/''
   \<and> canonicalize env ''a/.'' = Inr ''a/.''
   \<and> canonicalize env ''a//b///c'' = Inr ''a/b/c''"
  by (simp add: canon_eval)

subsection \<open>Tilde expansion\<close>

text \<open>
  C6 (amended).  With \<open>SCM_PATH_EXPAND\<close> set and \<open>SCM_PATH_CANONICALIZE\<close> clear, a path
  that starts with a tilde becomes the home directory that was looked up (the own
  one when no user name follows the tilde), a slash unless the home directory ends in
  one, and the rest of the path behind the user name and the slashes that follow it.
  The user name ends at the first slash or NUL byte.  The separator is added also when
  nothing follows: \<open>~\<close> alone gives the home directory with a slash at its end.
\<close>

theorem tilde_expansion:
  "SCM_PATH_EXPAND flags \<and> \<not> SCM_PATH_CANONICALIZE flags
   \<and> string_start pathname = CHR ''~'' # rest
   \<and> user = takeWhile (\<lambda>c. c \<noteq> CHR ''/'' \<and> c \<noteq> NUL) rest
   \<and> (if user = [] then getpwuid_dir env else getpwnam_dir env user) = Some home
   \<and> c_string home \<noteq> []
   \<longrightarrow> Scm_NormalizePathname env pathname flags
       = Inr (c_string home
              @ (if last (c_string home) = CHR ''/'' then [] else ''/'')
              @ dropWhile (\<lambda>c. c = CHR ''/'')
                  (dropWhile (\<lambda>c. c \<noteq> CHR ''/'' \<and> c \<noteq> NUL) rest))"
  by (auto simp: Scm_NormalizePathname_def tilde_branch_def finish_path_def add_separator_def
      SKIP_SLASH_def Let_def)

theorem tilde_expansion_witness:
  "Scm_NormalizePathname example_env (Scm_MakeString ''~root//x/./y'') only_expand = Inr ''/x/./y''
   \<and> Scm_NormalizePathname example_env (Scm_MakeString ''~/a'') only_expand = Inr ''/home/u/a''
   \<and> Scm_NormalizePathname example_env (Scm_MakeString ''~'') only_expand = Inr ''/home/u/''"
  using tilde_expansion [where flags = only_expand and pathname = "Scm_MakeString ''~root//x/./y''"
      and rest = "''root//x/./y''" and user = "''root''" and env = example_env and home = "''/''"]
    tilde_expansion [where flags = only_expand and pathname = "Scm_MakeString ''~/a''"
      and rest = "''/a''" and user = "[]" and env = example_env and home = "''/home/u''"]
    tilde_expansion [where flags = only_expand and pathname = "Scm_MakeString ''~''"
      and rest = "[]" and user = "[]" and env = example_env and home = "''/home/u''"]
  by (simp add: only_expand_def Scm_MakeString_def example_env_def c_string_def NUL_def)

text \<open>
  The claim as written says that \<open>~\<close> gives the home directory with nothing behind it.
\<close>

theorem tilde_alone_gets_separator:
  "getpwuid_dir example_env = Some ''/home/u''
   \<and> Scm_NormalizePathname example_env (Scm_MakeString ''~'') only_expand = Inr ''/home/u/''"
  by (simp add: tilde_eval)

subsection \<open>Which options fire\<close>

text \<open>
  C7 (amended).  Tilde expansion and the working-directory prefix exclude each other,
  tilde expansion first.  Canonicalisation is not a third alternative: when its flag
  is set the loop runs behind whichever prefix was made, on the buffer that holds the
  prefix, and it runs alone when neither prefix applies.  When nothing applies the
  path is returned as it is.
\<close>

theorem one_prefix_then_canonicalize:
  "(tilde_applies pathname flags \<longrightarrow>
      Scm_NormalizePathname env pathname flags
      = (case tilde_branch env (string_start pathname) of
           Inl e \<Rightarrow> Inl e
         | Inr sb \<Rightarrow> Inr (if SCM_PATH_CANONICALIZE flags then canon_loop (fst sb) (snd sb) False
                          else snd sb @ fst sb)))
   \<and> (absolute_applies pathname flags \<longrightarrow>
      Scm_NormalizePathname env pathname flags
      = (case absolute_branch env (string_start pathname) of
           Inl e \<Rightarrow> Inl e
         | Inr sb \<Rightarrow> Inr (if SCM_PATH_CANONICALIZE flags then canon_loop (fst sb) (snd sb) False
                          else snd sb @ fst sb)))
   \<and> (\<not> tilde_applies pathname flags \<and> \<not> absolute_applies pathname flags
        \<and> SCM_PATH_CANONICALIZE flags \<longrightarrow>
      Scm_NormalizePathname env pathname flags
      = Inr (canon_loop (fst (canonicalize_branch pathname)) (snd (canonicalize_branch pathname)) False))
   \<and> (\<not> tilde_applies pathname flags \<and> \<not> absolute_applies pathname flags
        \<and> \<not> SCM_PATH_CANONICALIZE flags \<longrightarrow>
      Scm_NormalizePathname env pathname flags = Inr (string_start pathname))"
  by (auto simp: Scm_NormalizePathname_def tilde_applies_def absolute_applies_def finish_path_def
      Let_def Suc_le_eq split: sum.splits)

theorem one_prefix_then_canonicalize_witness:
  "Scm_NormalizePathname example_env (Scm_MakeString ''~/a/./b'')
      \<lparr>SCM_PATH_ABSOLUTE = True, SCM_PATH_EXPAND = True, SCM_PATH_CANONICALIZE = True\<rparr>
     = Inr ''/home/u/a/b''
   \<and> Scm_NormalizePathname example_env (Scm_MakeString ''a/../b'')
      \<lparr>SCM_PATH_ABSOLUTE = True, SCM_PATH_EXPAND = True, SCM_PATH_CANONICALIZE = True\<rparr>
     = Inr ''/work/b''
   \<and> Scm_NormalizePathname example_env (Scm_MakeString ''a//b'') only_canonicalize = Inr ''a/b''
   \<and> Scm_NormalizePathname example_env (Scm_MakeString ''/a/./b'')
      \<lparr>SCM_PATH_ABSOLUTE = True, SCM_PATH_EXPAND = True, SCM_PATH_CANONICALIZE = False\<rparr>
     = Inr ''/a/./b''"
  using one_prefix_then_canonicalize [where env = example_env
      and pathname = "Scm_MakeString ''~/a/./b''"
      and flags = "\<lparr>SCM_PATH_ABSOLUTE = True, SCM_PATH_EXPAND = True, SCM_PATH_CANONICALIZE = True\<rparr>"]
    one_prefix_then_canonicalize [where env = example_env
      and pathname = "Scm_MakeString ''a/../b''"
      and flags = "\<lparr>SCM_PATH_ABSOLUTE = True, SCM_PATH_EXPAND = True, SCM_PATH_CANONICALIZE = True\<rparr>"]
    one_prefix_then_canonicalize [where env = example_env
      and pathname = "Scm_MakeString ''a//b''" and flags = only_canonicalize]
    one_prefix_then_canonicalize [where env = example_env
      and pathname = "Scm_MakeString ''/a/./b''"
      and flags = "\<lparr>SCM_PATH_ABSOLUTE = True, SCM_PATH_EXPAND = True, SCM_PATH_CANONICALIZE = False\<rparr>"]
  by (simp add: tilde_applies_def absolute_applies_def Scm_MakeString_def deref_start_def
      tilde_branch_def absolute_branch_def canonicalize_branch_def example_env_def c_string_def
      NUL_def add_separator_def SKIP_SLASH_def only_canonicalize_def canon_loop.simps
      scan_back.simps)

text \<open>
  The claim as written says that tilde expansion replaces canonicalisation when both
  flags are set.  Both are applied: the \<open>/./\<close> behind the home directory is removed.
\<close>

theorem expand_and_canonicalize_both_fire:
  "Scm_NormalizePathname example_env (Scm_MakeString ''~/a/./b'')
      \<lparr>SCM_PATH_ABSOLUTE = False, SCM_PATH_EXPAND = True, SCM_PATH_CANONICALIZE = True\<rparr>
     = Inr ''/home/u/a/b''
   \<and> Scm_NormalizePathname example_env (Scm_MakeString ''~/a/./b'') only_expand
     = Inr ''/home/u/a/./b''"
  by (simp add: tilde_eval canon_loop.simps)

section \<open>Properties of process replacement\<close>

subsection \<open>Facts about the descriptor table and the loops\<close>

lemma lowest_free_Some:
  "lowest_free tbl = Some k \<Longrightarrow> k < length tbl \<and> tbl ! k = None"
proof (induction tbl arbitrary: k)
  case Nil
  then show ?case by simp
next
  case (Cons x tbl)
  show ?case
  proof (cases x)
    case None
    with Cons.prems show ?thesis by simp
  next
    case (Some f)
    with Cons.prems obtain j where "lowest_free tbl = Some j" and "k = Suc j" by auto
    with Cons.IH [of j] show ?thesis by simp
  qed
qed

lemma fd_file_update:
  "fd_file (tbl[k := v]) x = (if x = int k \<and> k < length tbl then v else fd_file tbl x)"
  by (auto simp: fd_file_def nth_list_update)

lemma sys_dup_props:
  assumes "sys_dup tbl fd = Some (tmp, tbl')"
  shows "fd_file tbl tmp = None" and "fd_file tbl' tmp = fd_file tbl fd"
    and "fd_file tbl fd \<noteq> None" and "\<And>x. x \<noteq> tmp \<Longrightarrow> fd_file tbl' x = fd_file tbl x"
proof -
  from assms obtain f k where f: "fd_file tbl fd = Some f" and k: "lowest_free tbl = Some k"
    and tmp: "tmp = int k" and tbl': "tbl' = tbl[k := Some f]"
    by (auto simp: sys_dup_def split: option.splits)
  from lowest_free_Some [OF k] have kk: "k < length tbl" "tbl ! k = None" by simp_all
  show "fd_file tbl tmp = None" using kk tmp by (simp add: fd_file_def)
  show "fd_file tbl' tmp = fd_file tbl fd" using kk tmp tbl' f by (simp add: fd_file_update)
  show "fd_file tbl fd \<noteq> None" using f by simp
  show "\<And>x. x \<noteq> tmp \<Longrightarrow> fd_file tbl' x = fd_file tbl x"
    using tmp tbl' by (simp add: fd_file_update)
qed

lemma final_source_mem: "final_source m t = Some s \<Longrightarrow> (t, s) \<in> set m"
  by (induction m) (auto split: option.splits if_splits)

lemma final_source_None: "final_source m t = None \<longleftrightarrow> t \<notin> fst ` set m"
  by (induction m) (auto split: option.splits)

text \<open>
  What the inner loop establishes: the targets stay, what was open stays as it was,
  no source is left equal to \<open>t\<close>, and a source that was open is still open with the
  same file, under its new number.
\<close>

definition redirected ::
  "int \<Rightarrow> (int \<times> int) list \<Rightarrow> 'f fdtable \<Rightarrow> (int \<times> int) list \<Rightarrow> 'f fdtable \<Rightarrow> bool" where
  "redirected t rest tbl rest' tbl' =
     (map fst rest' = map fst rest
      \<and> (\<forall>x. is_open tbl x \<longrightarrow> fd_file tbl' x = fd_file tbl x)
      \<and> (\<forall>(a, b) \<in> set rest'. b \<noteq> t)
      \<and> (\<forall>x s'. final_source rest' x = Some s' \<longrightarrow>
            (\<exists>s. final_source rest x = Some s
                 \<and> (is_open tbl s \<longrightarrow> fd_file tbl' s' = fd_file tbl s))))"

lemma redirect_later_props:
  "redirect_later t rest tbl = Inr (rest', tbl') \<Longrightarrow> redirected t rest tbl rest' tbl'"
proof (induction rest arbitrary: tbl rest' tbl')
  case Nil
  then show ?case by (auto simp: redirected_def)
next
  case (Cons e rest)
  obtain a b where e: "e = (a, b)" by (cases e)
  note run = Cons.prems(1)
  show ?case
  proof (cases "t = b")
    case True
    from run e True obtain tmp tbl1 r2 where d: "sys_dup tbl t = Some (tmp, tbl1)"
      and rec: "redirect_later t rest tbl1 = Inr (r2, tbl')" and r': "rest' = (a, tmp) # r2"
      by (auto split: option.splits sum.splits prod.splits)
    note dp = sys_dup_props [OF d]
    have keep1: "\<And>x. is_open tbl x \<Longrightarrow> fd_file tbl1 x = fd_file tbl x"
      using dp(1) dp(4) by (metis is_open_def)
    from Cons.IH [OF rec] have ih: "map fst r2 = map fst rest"
      "\<forall>x. is_open tbl1 x \<longrightarrow> fd_file tbl' x = fd_file tbl1 x"
      "\<forall>(a, b) \<in> set r2. b \<noteq> t"
      "\<forall>x s'. final_source r2 x = Some s' \<longrightarrow>
         (\<exists>s. final_source rest x = Some s \<and> (is_open tbl1 s \<longrightarrow> fd_file tbl' s' = fd_file tbl1 s))"
      by (simp_all add: redirected_def)
    have tmp_open1: "is_open tbl1 tmp" using dp(2) dp(3) by (simp add: is_open_def)
    have tmp_ne: "tmp \<noteq> t" using dp(1) dp(3) by auto
    have tmp_file: "fd_file tbl' tmp = fd_file tbl b"
      using ih(2) tmp_open1 dp(2) True by simp
    have c1: "map fst rest' = map fst (e # rest)" using ih(1) r' e by simp
    have c2: "\<forall>x. is_open tbl x \<longrightarrow> fd_file tbl' x = fd_file tbl x"
      using ih(2) keep1 by (simp add: is_open_def)
    have c3: "\<forall>(a, b) \<in> set rest'. b \<noteq> t"
      using ih(3) r' tmp_ne by auto
    have c4: "\<forall>x s'. final_source rest' x = Some s' \<longrightarrow>
              (\<exists>s. final_source (e # rest) x = Some s
                   \<and> (is_open tbl s \<longrightarrow> fd_file tbl' s' = fd_file tbl s))"
    proof (intro allI impI)
      fix x s' assume fs: "final_source rest' x = Some s'"
      show "\<exists>s. final_source (e # rest) x = Some s
                \<and> (is_open tbl s \<longrightarrow> fd_file tbl' s' = fd_file tbl s)"
      proof (cases "final_source r2 x")
        case None
        with fs r' have "x = a" "s' = tmp" by (auto split: if_splits)
        moreover from None have "final_source rest x = None"
          using ih(1) by (simp add: final_source_None) (metis list.set_map)
        ultimately show ?thesis using e tmp_file by simp
      next
        case (Some s2)
        with fs r' have "s' = s2" by simp
        from ih(4) Some obtain s where s: "final_source rest x = Some s"
          "is_open tbl1 s \<longrightarrow> fd_file tbl' s2 = fd_file tbl1 s" by blast
        have "is_open tbl s \<longrightarrow> fd_file tbl' s2 = fd_file tbl s"
          using s(2) keep1 by (simp add: is_open_def)
        with s(1) \<open>s' = s2\<close> e show ?thesis by simp
      qed
    qed
    from c1 c2 c3 c4 show ?thesis by (simp add: redirected_def)
  next
    case False
    from run e False obtain r2 where rec: "redirect_later t rest tbl = Inr (r2, tbl')"
      and r': "rest' = (a, b) # r2"
      by (auto split: option.splits sum.splits prod.splits)
    from Cons.IH [OF rec] have ih: "map fst r2 = map fst rest"
      "\<forall>x. is_open tbl x \<longrightarrow> fd_file tbl' x = fd_file tbl x"
      "\<forall>(a, b) \<in> set r2. b \<noteq> t"
      "\<forall>x s'. final_source r2 x = Some s' \<longrightarrow>
         (\<exists>s. final_source rest x = Some s \<and> (is_open tbl s \<longrightarrow> fd_file tbl' s' = fd_file tbl s))"
      by (simp_all add: redirected_def)
    have c1: "map fst rest' = map fst (e # rest)" using ih(1) r' e by simp
    have c3: "\<forall>(a, b) \<in> set rest'. b \<noteq> t"
      using ih(3) r' False by auto
    have c4: "\<forall>x s'. final_source rest' x = Some s' \<longrightarrow>
              (\<exists>s. final_source (e # rest) x = Some s
                   \<and> (is_open tbl s \<longrightarrow> fd_file tbl' s' = fd_file tbl s))"
    proof (intro allI impI)
      fix x s' assume fs: "final_source rest' x = Some s'"
      show "\<exists>s. final_source (e # rest) x = Some s
                \<and> (is_open tbl s \<longrightarrow> fd_file tbl' s' = fd_file tbl s)"
      proof (cases "final_source r2 x")
        case None
        with fs r' have "x = a" "s' = b" by (auto split: if_splits)
        moreover from None have "final_source rest x = None"
          using ih(1) by (simp add: final_source_None) (metis list.set_map)
        ultimately show ?thesis using e ih(2) by simp
      next
        case (Some s2)
        with fs r' have "s' = s2" by simp
        from ih(4) Some obtain s where s: "final_source rest x = Some s"
          "is_open tbl s \<longrightarrow> fd_file tbl' s2 = fd_file tbl s" by blast
        with \<open>s' = s2\<close> e show ?thesis by simp
      qed
    qed
    from c1 ih(2) c3 c4 show ?thesis by (simp add: redirected_def)
  qed
qed

lemma sys_dup2_props:
  assumes "sys_dup2 tbl oldfd newfd = Some tbl'"
  shows "fd_file tbl' newfd = fd_file tbl oldfd" and "fd_file tbl oldfd \<noteq> None"
    and "\<And>x. x \<noteq> newfd \<Longrightarrow> fd_file tbl' x = fd_file tbl x"
proof -
  from assms obtain f where f: "fd_file tbl oldfd = Some f"
    and r: "0 \<le> newfd" "newfd < int (length tbl)" and tbl': "tbl' = tbl[nat newfd := Some f]"
    by (auto simp: sys_dup2_def split: option.splits if_splits)
  have "nat newfd < length tbl" using r by simp
  then show "fd_file tbl' newfd = fd_file tbl oldfd" using f r tbl' by (simp add: fd_file_update)
  show "fd_file tbl oldfd \<noteq> None" using f by simp
  show "\<And>x. x \<noteq> newfd \<Longrightarrow> fd_file tbl' x = fd_file tbl x"
    using r tbl' by (auto simp: fd_file_update)
qed

lemma remap_correct:
  "remap m tbl = Inr tbl' \<Longrightarrow>
   (\<forall>x s. final_source m x = Some s \<longrightarrow> is_open tbl s \<longrightarrow> fd_file tbl' x = fd_file tbl s)
   \<and> (\<forall>x. final_source m x = None \<longrightarrow> is_open tbl x \<longrightarrow> fd_file tbl' x = fd_file tbl x)"
proof (induction m tbl arbitrary: tbl' rule: remap.induct)
  case (1 tbl)
  then show ?case by simp
next
  case (2 tofd fromfd rest tbl)
  note run = "2.prems"(1)
  show ?case
  proof (cases "tofd = fromfd")
    case True
    with run have r: "remap rest tbl = Inr tbl'" by simp
    from "2.IH"(1) [OF True r]
    have ih1: "\<forall>x s. final_source rest x = Some s \<longrightarrow> is_open tbl s \<longrightarrow> fd_file tbl' x = fd_file tbl s"
      and ih2: "\<forall>x. final_source rest x = None \<longrightarrow> is_open tbl x \<longrightarrow> fd_file tbl' x = fd_file tbl x"
      by blast+
    show ?thesis using ih1 ih2 True by (auto split: option.splits)
  next
    case False
    from run False obtain rest' tbl1 tbl2 where
      red: "redirect_later tofd rest tbl = Inr (rest', tbl1)"
      and d2: "sys_dup2 tbl1 fromfd tofd = Some tbl2"
      and r: "remap rest' tbl2 = Inr tbl'"
      by (auto split: sum.splits option.splits prod.splits)
    from redirect_later_props [OF red]
    have fsts: "map fst rest' = map fst rest"
      and keep: "\<forall>x. is_open tbl x \<longrightarrow> fd_file tbl1 x = fd_file tbl x"
      and srcs: "\<forall>(a, b) \<in> set rest'. b \<noteq> tofd"
      and fin: "\<forall>x s'. final_source rest' x = Some s' \<longrightarrow>
                 (\<exists>s. final_source rest x = Some s
                      \<and> (is_open tbl s \<longrightarrow> fd_file tbl1 s' = fd_file tbl s))"
      by (simp_all add: redirected_def)
    note dp = sys_dup2_props [OF d2]
    from "2.IH"(2) [OF False red refl d2 r]
    have ih1: "\<forall>x s. final_source rest' x = Some s \<longrightarrow> is_open tbl2 s \<longrightarrow> fd_file tbl' x = fd_file tbl2 s"
      and ih2: "\<forall>x. final_source rest' x = None \<longrightarrow> is_open tbl2 x \<longrightarrow> fd_file tbl' x = fd_file tbl2 x"
      by blast+
    have none_iff: "\<And>x. final_source rest' x = None \<longleftrightarrow> final_source rest x = None"
      using fsts by (simp add: final_source_None) (metis list.set_map)
    show ?thesis
    proof (intro conjI allI impI)
      fix x s assume fs: "final_source ((tofd, fromfd) # rest) x = Some s" and so: "is_open tbl s"
      show "fd_file tbl' x = fd_file tbl s"
      proof (cases "final_source rest x")
        case None
        with fs have x: "x = tofd" "s = fromfd" by (auto split: if_splits)
        from None none_iff have n': "final_source rest' x = None" by simp
        have to_file: "fd_file tbl2 tofd = fd_file tbl fromfd"
          using dp(1) keep so x by simp
        have "is_open tbl2 x" using x to_file so by (simp add: is_open_def)
        with ih2 n' have "fd_file tbl' x = fd_file tbl2 x" by simp
        with x to_file show ?thesis by simp
      next
        case (Some s0)
        with fs have "s = s0" by simp
        from Some none_iff obtain s' where s': "final_source rest' x = Some s'"
          by (cases "final_source rest' x") auto
        from fin s' obtain s1 where "final_source rest x = Some s1"
          and "is_open tbl s1 \<longrightarrow> fd_file tbl1 s' = fd_file tbl s1" by blast
        with Some so \<open>s = s0\<close> have f1: "fd_file tbl1 s' = fd_file tbl s" by simp
        from final_source_mem [OF s'] srcs have "s' \<noteq> tofd" by auto
        with dp(3) have f2: "fd_file tbl2 s' = fd_file tbl1 s'" by simp
        with f1 so have "is_open tbl2 s'" by (simp add: is_open_def)
        with ih1 s' f1 f2 show ?thesis by simp
      qed
    next
      fix x assume fs: "final_source ((tofd, fromfd) # rest) x = None" and xo: "is_open tbl x"
      from fs have ne: "x \<noteq> tofd" and n: "final_source rest x = None"
        by (auto split: option.splits if_splits)
      from n none_iff have n': "final_source rest' x = None" by simp
      have "fd_file tbl2 x = fd_file tbl x" using dp(3) [OF ne] keep xo by simp
      with ih2 n' xo show "fd_file tbl' x = fd_file tbl x" by (simp add: is_open_def)
    qed
  qed
qed

subsection \<open>The remapping loop\<close>

text \<open>
  C1 (amended).  When the remapping loop completes, every target descriptor whose
  entry (the last one that names the target) has a source that was open before the
  loop refers to the file that this source referred to then, and is open.  The inner
  loop leaves no later entry with a source equal to the target that is about to be
  overwritten; it keeps the targets of the later entries and every descriptor that was
  open.
\<close>

theorem remap_gives_each_target_its_source:
  "(remap m tbl = Inr tbl' \<and> final_source m t = Some s \<and> is_open tbl s \<longrightarrow>
      fd_file tbl' t = fd_file tbl s \<and> is_open tbl' t)
   \<and> (redirect_later t rest tbl = Inr (rest', tbl1) \<longrightarrow>
      map fst rest' = map fst rest \<and> (\<forall>(a, b) \<in> set rest'. b \<noteq> t)
      \<and> (\<forall>x. is_open tbl x \<longrightarrow> fd_file tbl1 x = fd_file tbl x))"
proof (intro impI conjI)
  assume a: "remap m tbl = Inr tbl' \<and> final_source m t = Some s \<and> is_open tbl s"
  with remap_correct [of m tbl tbl'] show f: "fd_file tbl' t = fd_file tbl s" by blast
  with a show "is_open tbl' t" by (simp add: is_open_def)
next
  assume "redirect_later t rest tbl = Inr (rest', tbl1)"
  then have r: "redirected t rest tbl rest' tbl1" by (rule redirect_later_props)
  from r show "map fst rest' = map fst rest" by (simp add: redirected_def)
  from r show "\<forall>(a, b) \<in> set rest'. b \<noteq> t" by (simp add: redirected_def)
  from r show "\<forall>x. is_open tbl x \<longrightarrow> fd_file tbl1 x = fd_file tbl x" by (simp add: redirected_def)
qed

text \<open>
  The swap of descriptors 0 and 1: the loop completes, descriptor 0 ends with the
  file of descriptor 1 and descriptor 1 with the file of descriptor 0, by way of a
  duplicate of descriptor 0 at descriptor 2.
\<close>

theorem remap_gives_each_target_its_source_witness:
  "remap [(0, 1), (1, 0)] [Some ''in'', Some ''out'', None] = Inr [Some ''out'', Some ''in'', Some ''in'']
   \<and> fd_file [Some ''out'', Some ''in'', Some ''in''] 0 = Some ''out''
   \<and> fd_file [Some ''out'', Some ''in'', Some ''in''] 1 = Some ''in''
   \<and> redirect_later 0 [(1, 0)] [Some ''in'', Some ''out'', None]
       = Inr ([(1, 2)], [Some ''in'', Some ''out'', Some ''in''])"
proof -
  let ?tbl = "[Some ''in'', Some ''out'', None]"
  let ?tbl' = "[Some ''out'', Some ''in'', Some ''in'']"
  have run: "remap [(0, 1), (1, 0)] ?tbl = Inr ?tbl'"
    by (simp add: sys_dup_def sys_dup2_def fd_file_def)
  have red: "redirect_later 0 [(1, 0)] ?tbl = Inr ([(1, 2)], [Some ''in'', Some ''out'', Some ''in''])"
    by (simp add: sys_dup_def fd_file_def)
  have "fd_file ?tbl' 0 = fd_file ?tbl 1"
    using remap_gives_each_target_its_source [of "[(0, 1), (1, 0)]" ?tbl ?tbl' 0 1] run
    by (simp add: is_open_def fd_file_def)
  moreover have "fd_file ?tbl' 1 = fd_file ?tbl 0"
    using remap_gives_each_target_its_source [of "[(0, 1), (1, 0)]" ?tbl ?tbl' 1 0] run
    by (simp add: is_open_def fd_file_def)
  ultimately show ?thesis using run red by (simp add: fd_file_def)
qed

text \<open>
  The claim as written is about every mapping.  A source that is closed before the
  loop can receive one of the duplicates: with the mapping \<open>((0 . 1) (5 . 2) (1 . 0))\<close>
  and descriptor 2 closed, \<open>dup(0)\<close> returns 2 while entry \<open>(5 . 2)\<close> is still to come.
  The loop completes, and target 5 ends on the file of descriptor 0, which descriptor
  2 never referred to.
\<close>

theorem closed_source_receives_duplicate:
  "remap [(0, 1), (5, 2), (1, 0)] [Some ''in'', Some ''out'', None, None, None, None]
     = Inr [Some ''out'', Some ''in'', Some ''in'', None, None, Some ''in'']
   \<and> final_source [(0, 1), (5, 2), (1, 0)] 5 = Some 2
   \<and> fd_file [Some ''in'', Some ''out'', None, None, None, None] 2 = None
   \<and> fd_file [Some ''out'', Some ''in'', Some ''in'', None, None, Some ''in''] 5 = Some ''in''
   \<and> redirect_later 0 [(5, 2), (1, 0)] [Some ''in'', Some ''out'', None, None, None, None]
       = Inr ([(5, 2), (1, 2)], [Some ''in'', Some ''out'', Some ''in'', None, None, None])"
  by (simp add: sys_dup_def sys_dup2_def fd_file_def)




lemmas exec_eval = Scm_SysExec_def scm_list_def sys_dup_def sys_dup2_def sys_close_def
  fd_file_def is_open_def close_loop.simps


subsection \<open>Validation\<close>







subsection \<open>A negative target\<close>

lemma sys_dup_nonneg: "sys_dup tbl fd = Some (tmp, tbl') \<Longrightarrow> 0 \<le> tmp"
  by (auto simp: sys_dup_def split: option.splits)

lemma redirect_later_keeps_negative:
  "redirect_later u rest tbl = Inr (rest', tbl') \<Longrightarrow> (t, s) \<in> set rest \<Longrightarrow> t < 0 \<Longrightarrow> t \<noteq> s
   \<Longrightarrow> \<exists>s'. (t, s') \<in> set rest' \<and> t \<noteq> s'"
proof (induction rest arbitrary: tbl rest' tbl')
  case Nil
  then show ?case by simp
next
  case (Cons p rest)
  obtain a b where p: "p = (a, b)" by (cases p)
  show ?case
  proof (cases "u = b")
    case True
    with Cons.prems(1) p obtain tmp tbl1 rest1 where
      d: "sys_dup tbl u = Some (tmp, tbl1)"
      and r: "redirect_later u rest tbl1 = Inr (rest1, tbl')"
      and e: "rest' = (a, tmp) # rest1"
      by (auto split: option.splits sum.splits prod.splits)
    from d have tmp: "0 \<le> tmp" by (rule sys_dup_nonneg)
    show ?thesis
    proof (cases "(t, s) = (a, b)")
      case True
      with e tmp Cons.prems(3) show ?thesis by auto
    next
      case False
      with Cons.prems(2) p have "(t, s) \<in> set rest" by auto
      from Cons.IH [OF r this Cons.prems(3) Cons.prems(4)] e show ?thesis by auto
    qed
  next
    case False
    with Cons.prems(1) p obtain rest1 where
      r: "redirect_later u rest tbl = Inr (rest1, tbl')"
      and e: "rest' = (a, b) # rest1"
      by (auto split: option.splits sum.splits prod.splits)
    show ?thesis
    proof (cases "(t, s) = (a, b)")
      case True
      with e Cons.prems(4) show ?thesis by auto
    next
      case False
      with Cons.prems(2) p have "(t, s) \<in> set rest" by auto
      from Cons.IH [OF r this Cons.prems(3) Cons.prems(4)] e show ?thesis by auto
    qed
  qed
qed

lemma sys_dup_negative: "t < 0 \<Longrightarrow> sys_dup tbl t = None"
  by (simp add: sys_dup_def fd_file_def)

lemma sys_dup2_negative: "t < 0 \<Longrightarrow> sys_dup2 tbl s t = None"
  by (simp add: sys_dup2_def split: option.splits)

lemma redirect_later_negative_frame:
  "t < 0 \<Longrightarrow> redirect_later t rest tbl = Inr (rest', tbl') \<Longrightarrow> tbl' = tbl"
  by (induction rest arbitrary: rest' tbl')
    (auto simp: sys_dup_negative split: if_splits sum.splits prod.splits)

lemma remap_negative_panics:
  "(t, s) \<in> set m \<Longrightarrow> t < 0 \<Longrightarrow> t \<noteq> s \<Longrightarrow> isl (remap m tbl)"
proof (induction m tbl arbitrary: s rule: remap.induct)
  case (1 tbl)
  then show ?case by simp
next
  case (2 tofd fromfd rest tbl)
  show ?case
  proof (cases "tofd = fromfd")
    case True
    with "2.prems" have "(t, s) \<in> set rest" by auto
    from "2.IH"(1) [OF True this "2.prems"(2) "2.prems"(3)] True show ?thesis by simp
  next
    case False
    show ?thesis
    proof (cases "redirect_later tofd rest tbl")
      case (Inl p)
      with False show ?thesis by simp
    next
      case (Inr q)
      obtain rest' tbl1 where q: "q = (rest', tbl1)" by (cases q)
      show ?thesis
      proof (cases "sys_dup2 tbl1 fromfd tofd")
        case None
        with False Inr q show ?thesis by simp
      next
        case (Some tbl2)
        have "(t, s) \<noteq> (tofd, fromfd)"
        proof
          assume "(t, s) = (tofd, fromfd)"
          with "2.prems"(2) have "tofd < 0" by simp
          then have "sys_dup2 tbl1 fromfd tofd = None" by (rule sys_dup2_negative)
          with Some show False by simp
        qed
        with "2.prems"(1) have "(t, s) \<in> set rest" by auto
        from redirect_later_keeps_negative [OF Inr [unfolded q] this "2.prems"(2) "2.prems"(3)]
        obtain s' where s': "(t, s') \<in> set rest'" "t \<noteq> s'" by blast
        from "2.IH"(2) [OF False Inr [unfolded q] refl Some s'(1) "2.prems"(2) s'(2)]
        have "isl (remap rest' tbl2)" .
        with False Inr q Some show ?thesis by simp
      qed
    qed
  qed
qed

text \<open>
  A mapping that has passed the validation and holds an entry with a negative target
  that differs from its source: \<open>dup\<close> or \<open>dup2\<close> fails in the remapping loop at the
  latest when this entry is reached, and the call ends in \<open>Scm_Panic\<close>.  An entry whose
  target equals its source is skipped by the loop, whatever the sign.
\<close>

theorem negative_target_ends_in_panic:
  "(1 \<le> Scm_Length args \<and> fill_argv args = Inr argv \<and> SCM_PAIRP iomap
      \<and> 0 \<le> Scm_Length iomap \<and> check_iomap iomap = Inr m \<and> 0 \<le> open_max
      \<and> (t, s) \<in> set m \<and> t < 0 \<and> t \<noteq> s \<longrightarrow>
      (\<exists>p tbl'. Scm_SysExec open_max prog args iomap tbl = Panicked p tbl'))
   \<and> remap ((t, t) # m) tbl = remap m tbl"
proof (intro conjI impI)
  assume a: "1 \<le> Scm_Length args \<and> fill_argv args = Inr argv \<and> SCM_PAIRP iomap
      \<and> 0 \<le> Scm_Length iomap \<and> check_iomap iomap = Inr m \<and> 0 \<le> open_max
      \<and> (t, s) \<in> set m \<and> t < 0 \<and> t \<noteq> s"
  then have "(t, s) \<in> set m" "t < 0" "t \<noteq> s" by simp_all
  then have "isl (remap m tbl)" by (rule remap_negative_panics)
  then obtain p tbl1 where "remap m tbl = Inl (p, tbl1)" by (cases "remap m tbl") auto
  with a show "\<exists>p tbl'. Scm_SysExec open_max prog args iomap tbl = Panicked p tbl'"
    by (simp add: Scm_SysExec_def)
next
  show "remap ((t, t) # m) tbl = remap m tbl" by simp
qed

text \<open>
  The mapping \<open>((-1 . 0))\<close> ends in \<open>Scm_Panic\<close>; the mapping \<open>((-1 . -1))\<close> is
  skipped, every descriptor is closed and \<open>execvp\<close> is reached.
\<close>

theorem negative_target_ends_in_panic_witness:
  "(\<exists>p tbl'. Scm_SysExec 6 ''ls'' (scm_list [SCM_STRING ''ls''])
       (scm_list [SCM_PAIR (SCM_INT (- 1)) (SCM_INT 0)]) example_table = Panicked p tbl')
   \<and> Scm_SysExec 6 ''ls'' (scm_list [SCM_STRING ''ls''])
       (scm_list [SCM_PAIR (SCM_INT (- 1)) (SCM_INT (- 1))]) example_table
     = Execvp ''ls'' [''ls''] [None, None, None, None, None, None]"
proof -
  have "\<exists>p tbl'. Scm_SysExec 6 ''ls'' (scm_list [SCM_STRING ''ls''])
       (scm_list [SCM_PAIR (SCM_INT (- 1)) (SCM_INT 0)]) example_table = Panicked p tbl'"
    using negative_target_ends_in_panic [where args = "scm_list [SCM_STRING ''ls'']"
        and argv = "[''ls'']" and iomap = "scm_list [SCM_PAIR (SCM_INT (- 1)) (SCM_INT 0)]"
        and m = "[(- 1, 0)]" and open_max = 6 and t = "- 1" and s = 0 and prog = "''ls''"
        and tbl = example_table]
    by (simp add: scm_list_def)
  moreover have "Scm_SysExec 6 ''ls'' (scm_list [SCM_STRING ''ls''])
       (scm_list [SCM_PAIR (SCM_INT (- 1)) (SCM_INT (- 1))]) example_table
     = Execvp ''ls'' [''ls''] [None, None, None, None, None, None]"
    by (simp add: exec_eval example_table_def)
  ultimately show ?thesis by simp
qed

lemma sys_dup_length: "sys_dup tbl fd = Some (tmp, tbl') \<Longrightarrow> length tbl' = length tbl"
  by (auto simp: sys_dup_def split: option.splits)

lemma sys_dup2_length: "sys_dup2 tbl oldfd newfd = Some tbl' \<Longrightarrow> length tbl' = length tbl"
  by (auto simp: sys_dup2_def split: option.splits if_splits)

lemma redirect_later_table_length:
  "redirect_later t rest tbl = Inr (rest', tbl') \<Longrightarrow> length tbl' = length tbl"
proof (induction rest arbitrary: tbl rest' tbl')
  case Nil
  then show ?case by simp
next
  case (Cons e rest)
  obtain a b where e: "e = (a, b)" by (cases e)
  show ?case
  proof (cases "t = b")
    case True
    with Cons.prems e obtain tmp tbl1 r2 where "sys_dup tbl t = Some (tmp, tbl1)"
      and "redirect_later t rest tbl1 = Inr (r2, tbl')"
      by (auto split: option.splits sum.splits prod.splits)
    with Cons.IH [of tbl1 r2 tbl'] sys_dup_length [of tbl t tmp tbl1] show ?thesis by simp
  next
    case False
    with Cons.prems e obtain r2 where "redirect_later t rest tbl = Inr (r2, tbl')"
      by (auto split: option.splits sum.splits prod.splits)
    with Cons.IH [of tbl r2 tbl'] show ?thesis by simp
  qed
qed



subsection \<open>Completion of the remapping loop\<close>

lemma lowest_free_None: "lowest_free tbl = None \<longleftrightarrow> free_count tbl = 0"
proof (induction tbl)
  case Nil
  show ?case by (simp add: free_count_def)
next
  case (Cons x tbl)
  then show ?case by (cases x) (auto simp: free_count_def)
qed

lemma free_count_update_Some:
  "k < length tbl \<Longrightarrow> free_count (tbl[k := Some f]) \<ge> free_count tbl - 1"
proof (induction tbl arbitrary: k)
  case Nil
  then show ?case by simp
next
  case (Cons x tbl)
  show ?case
  proof (cases k)
    case 0
    then show ?thesis by (simp add: free_count_def)
  next
    case (Suc j)
    with Cons.prems have "j < length tbl" by simp
    from Cons.IH [OF this] Suc show ?thesis by (auto simp: free_count_def)
  qed
qed

lemma sys_dup_succeeds:
  "is_open tbl fd \<Longrightarrow> 0 < free_count tbl \<Longrightarrow>
   \<exists>tmp tbl'. sys_dup tbl fd = Some (tmp, tbl') \<and> free_count tbl' \<ge> free_count tbl - 1"
proof -
  assume o: "is_open tbl fd" and f: "0 < free_count tbl"
  from o obtain f0 where f0: "fd_file tbl fd = Some f0" by (auto simp: is_open_def)
  from f obtain k where k: "lowest_free tbl = Some k"
    using lowest_free_None [of tbl] by (cases "lowest_free tbl") auto
  from lowest_free_Some [OF k] have "k < length tbl" by simp
  from free_count_update_Some [OF this, of f0] f0 k show ?thesis
    by (simp add: sys_dup_def)
qed

lemma sys_dup2_succeeds:
  "is_open tbl oldfd \<Longrightarrow> 0 \<le> newfd \<Longrightarrow> newfd < int (length tbl) \<Longrightarrow>
   \<exists>tbl'. sys_dup2 tbl oldfd newfd = Some tbl' \<and> free_count tbl' \<ge> free_count tbl - 1"
proof -
  assume o: "is_open tbl oldfd" and r: "0 \<le> newfd" "newfd < int (length tbl)"
  from o obtain f0 where f0: "fd_file tbl oldfd = Some f0" by (auto simp: is_open_def)
  from r have "nat newfd < length tbl" by simp
  from free_count_update_Some [OF this, of f0] f0 r show ?thesis
    by (simp add: sys_dup2_def)
qed

lemma redirect_later_succeeds:
  "\<forall>(a, b) \<in> set rest. is_open tbl b \<Longrightarrow> length rest \<le> free_count tbl \<Longrightarrow>
   \<exists>rest' tbl'. redirect_later t rest tbl = Inr (rest', tbl')
      \<and> free_count tbl - length rest \<le> free_count tbl'
      \<and> (\<forall>(a, b) \<in> set rest'. is_open tbl' b)
      \<and> (\<forall>x. is_open tbl x \<longrightarrow> is_open tbl' x)"
proof (induction rest arbitrary: tbl)
  case Nil
  then show ?case by simp
next
  case (Cons e rest)
  obtain a b where e: "e = (a, b)" by (cases e)
  from Cons.prems e have bo: "is_open tbl b" and ro: "\<forall>(a, b) \<in> set rest. is_open tbl b"
    and fr: "Suc (length rest) \<le> free_count tbl" by auto
  show ?case
  proof (cases "t = b")
    case True
    from sys_dup_succeeds [of tbl t] bo True fr obtain tmp tbl1 where
      d: "sys_dup tbl t = Some (tmp, tbl1)" and f1: "free_count tbl - 1 \<le> free_count tbl1"
      by auto
    note dp = sys_dup_props [OF d]
    have keep: "\<And>x. is_open tbl x \<Longrightarrow> is_open tbl1 x"
      using dp(1) dp(4) by (metis is_open_def)
    have ro1: "\<forall>(a, b) \<in> set rest. is_open tbl1 b" using ro keep by auto
    have "length rest \<le> free_count tbl1" using f1 fr by simp
    from Cons.IH [OF ro1 this] obtain r2 tbl2 where
      rec: "redirect_later t rest tbl1 = Inr (r2, tbl2)"
      and f2: "free_count tbl1 - length rest \<le> free_count tbl2"
      and o2: "\<forall>(a, b) \<in> set r2. is_open tbl2 b"
      and k2: "\<forall>x. is_open tbl1 x \<longrightarrow> is_open tbl2 x" by blast
    have "is_open tbl1 tmp" using dp(2) dp(3) by (simp add: is_open_def)
    with k2 have "is_open tbl2 tmp" by simp
    with rec d True e o2 k2 keep f1 f2 show ?thesis by auto
  next
    case False
    have "length rest \<le> free_count tbl" using fr by simp
    from Cons.IH [OF ro this] obtain r2 tbl2 where
      rec: "redirect_later t rest tbl = Inr (r2, tbl2)"
      and f2: "free_count tbl - length rest \<le> free_count tbl2"
      and o2: "\<forall>(a, b) \<in> set r2. is_open tbl2 b"
      and k2: "\<forall>x. is_open tbl x \<longrightarrow> is_open tbl2 x" by blast
    with False e bo show ?thesis by auto
  qed
qed

text \<open>
  The loop completes when every source is open, every target lies within the table,
  and as many descriptors are free as the square of the number of entries: each
  entry costs at most one duplicate per later entry and one new target.
\<close>

lemma remap_completes:
  "\<forall>(a, b) \<in> set m. is_open tbl b \<and> 0 \<le> a \<and> a < int (length tbl) \<Longrightarrow>
   length m * length m \<le> free_count tbl \<Longrightarrow> \<exists>tbl'. remap m tbl = Inr tbl'"
proof (induction m tbl rule: remap.induct)
  case (1 tbl)
  show ?case by simp
next
  case (2 tofd fromfd rest tbl)
  from "2.prems" have fo: "is_open tbl fromfd" and tr: "0 \<le> tofd" "tofd < int (length tbl)"
    and ro: "\<forall>(a, b) \<in> set rest. is_open tbl b"
    and rr: "\<forall>(a, b) \<in> set rest. 0 \<le> a \<and> a < int (length tbl)"
    and fr: "Suc (length rest) * Suc (length rest) \<le> free_count tbl" by auto
  show ?case
  proof (cases "tofd = fromfd")
    case True
    have "\<forall>(a, b) \<in> set rest. is_open tbl b \<and> 0 \<le> a \<and> a < int (length tbl)"
      using ro rr by auto
    moreover have "length rest * length rest \<le> free_count tbl" using fr by simp
    ultimately have "\<exists>tbl'. remap rest tbl = Inr tbl'" by (rule "2.IH"(1) [OF True])
    with True show ?thesis by simp
  next
    case False
    have "length rest \<le> free_count tbl" using fr by simp
    from redirect_later_succeeds [OF ro this, of tofd] obtain rest' tbl1 where
      red: "redirect_later tofd rest tbl = Inr (rest', tbl1)"
      and f1: "free_count tbl - length rest \<le> free_count tbl1"
      and o1: "\<forall>(a, b) \<in> set rest'. is_open tbl1 b"
      and k1: "\<forall>x. is_open tbl x \<longrightarrow> is_open tbl1 x" by blast
    have len1: "length tbl1 = length tbl" by (rule redirect_later_table_length [OF red])
    have lr: "length rest' = length rest" by (rule redirect_later_length [OF red])
    from redirect_later_props [OF red] have fsts: "map fst rest' = map fst rest"
      and ne: "\<forall>(a, b) \<in> set rest'. b \<noteq> tofd" by (simp_all add: redirected_def)
    from sys_dup2_succeeds [of tbl1 fromfd tofd] k1 fo tr len1 obtain tbl2 where
      d2: "sys_dup2 tbl1 fromfd tofd = Some tbl2" and f2: "free_count tbl1 - 1 \<le> free_count tbl2"
      by auto
    note dp = sys_dup2_props [OF d2]
    have len2: "length tbl2 = length tbl" using sys_dup2_length [OF d2] len1 by simp
    have o2: "\<forall>(a, b) \<in> set rest'. is_open tbl2 b"
    proof (clarify)
      fix a b assume ab: "(a, b) \<in> set rest'"
      with ne have "b \<noteq> tofd" by auto
      with dp(3) have "fd_file tbl2 b = fd_file tbl1 b" by simp
      moreover from ab o1 have "is_open tbl1 b" by auto
      ultimately show "is_open tbl2 b" by (simp add: is_open_def)
    qed
    have "fst ` set rest' = fst ` set rest" using fsts by (metis list.set_map)
    then have r2: "\<forall>(a, b) \<in> set rest'. 0 \<le> a \<and> a < int (length tbl2)"
      using rr len2 by (force simp: image_iff)
    have "length rest' * length rest' \<le> free_count tbl2"
      using fr f1 f2 lr by (simp add: algebra_simps)
    moreover have "\<forall>(a, b) \<in> set rest'. is_open tbl2 b \<and> 0 \<le> a \<and> a < int (length tbl2)"
      using o2 r2 by auto
    ultimately have "\<exists>tbl'. remap rest' tbl2 = Inr tbl'"
      by (rule "2.IH"(2) [OF False red refl d2, rotated])
    with False red d2 show ?thesis by simp
  qed
qed

text \<open>
  The remapping loop does not end in \<open>Scm_Panic\<close> when the sources are open, the
  targets lie within the table and enough descriptors are free.
\<close>

theorem remap_loop_completes:
  "(\<forall>(a, b) \<in> set m. is_open tbl b \<and> 0 \<le> a \<and> a < int (length tbl))
   \<and> length m * length m \<le> free_count tbl \<longrightarrow> (\<exists>tbl'. remap m tbl = Inr tbl')"
  using remap_completes [of m tbl] by blast

theorem remap_loop_completes_witness:
  "free_count [Some ''in'', Some ''out'', None, None, None, None] = 4
   \<and> (\<exists>tbl'. remap [(0, 1), (1, 0)] [Some ''in'', Some ''out'', None, None, None, None] = Inr tbl')"
  using remap_loop_completes [of "[(0, 1), (1, 0)]" "[Some ''in'', Some ''out'', None, None, None, None]"]
  by (simp add: free_count_def is_open_def fd_file_def)

subsection \<open>The closing loop\<close>



section \<open>Properties of waiting on descriptor sets\<close>

subsection \<open>The timeout\<close>

lemma c_int_in_range: "- 2147483648 \<le> v \<Longrightarrow> v < 2147483648 \<Longrightarrow> c_int v = v"
  by (simp add: c_int_def)

lemma select_int_bad_timeval:
  "select_timeval nl timeout = Inl err \<Longrightarrow>
   select_int nl sel rfds wfds efds timeout w = (Inl err, w)"
  by (simp add: select_int_def)

lemma copy_if_present_calls:
  "select_calls (snd (copy_if_present p w)) = select_calls w"
  by (cases p) (simp_all add: copy_if_present_def fdset_copy_def)

lemma c_numlib_sound: "helpers_sound c_numlib"
proof -
  have flo: "(x = of_int \<lfloor>x\<rfloor>) = (x \<in> \<int>)" for x :: real
    by (metis Ints_of_int of_int_floor)
  have neg: "((if x < 0 then - \<lfloor>- x\<rfloor> else \<lfloor>x\<rfloor>) < 0) = (x \<le> - 1)" for x :: real
  proof (cases "x < 0")
    case True
    have "(- \<lfloor>- x\<rfloor> < 0) = (1 \<le> \<lfloor>- x\<rfloor>)" by linarith
    also have "\<dots> = (1 \<le> - x)" by (simp add: le_floor_iff)
    finally show ?thesis using True by auto
  next
    case False
    then have "0 \<le> \<lfloor>x\<rfloor>" by simp
    with False show ?thesis by auto
  qed
  have num: "(case obj of SCM_INT n \<Rightarrow> True | SCM_BIGNUM n \<Rightarrow> True
               | SCM_FLONUM x \<Rightarrow> x \<in> \<int> | _ \<Rightarrow> False) \<longrightarrow> scm_number obj" for obj
    by (cases obj) simp_all
  have clamp: "(max (- 9223372036854775808) (min 9223372036854775807 n) < 0) = (n < 0)"
    for n :: int
    by (simp add: min_def max_def)
  show ?thesis
    unfolding helpers_sound_def c_numlib_def
    using flo neg num clamp by (simp add: sgn_if)
qed

lemma pair_negative_refused:
  assumes h: "helpers_sound nl" and n: "scm_negative sec \<or> scm_negative usec"
  shows "isl (select_timeval nl (SCM_PAIR sec (SCM_PAIR usec rest)))"
proof -
  have one: "Scm_GetInteger nl obj < 0" if "scm_negative obj" "Scm_IntegerP nl obj" for obj
  proof (cases obj)
    case (SCM_INT k)
    with that h show ?thesis by (simp add: helpers_sound_def)
  next
    case (SCM_BIGNUM k)
    with that h show ?thesis by (simp add: helpers_sound_def)
  next
    case (SCM_FLONUM x)
    with that h have "x \<in> \<int>" "x < 0" by (simp_all add: helpers_sound_def)
    then obtain k where "x = of_int k" by (auto elim: Ints_cases)
    with \<open>x < 0\<close> have "x \<le> - 1" by simp
    with SCM_FLONUM h show ?thesis by (simp add: helpers_sound_def)
  qed (use that in simp_all)
  show ?thesis
  proof (cases "Scm_IntegerP nl sec \<and> Scm_IntegerP nl usec")
    case False
    then show ?thesis by auto
  next
    case True
    with n one have "Scm_GetInteger nl sec < 0 \<or> Scm_GetInteger nl usec < 0" by blast
    then show ?thesis by auto
  qed
qed

lemma pair_not_number_refused:
  assumes h: "helpers_sound nl" and n: "\<not> scm_number sec \<or> \<not> scm_number usec"
  shows "isl (select_timeval nl (SCM_PAIR sec (SCM_PAIR usec rest)))"
proof -
  from h n have "\<not> Scm_IntegerP nl sec \<or> \<not> Scm_IntegerP nl usec"
    by (auto simp: helpers_sound_def)
  then show ?thesis by auto
qed

text \<open>
  C8 (amended).  With helpers as \<open>helpers_sound\<close> describes them, \<open>select_timeval\<close>
  refuses a negative fixnum within the range of \<open>int\<close>, a negative bignum, a flonum
  from \<open>-1\<close> downwards and no other flonum, and a list of which one of the first two
  elements is negative or is not a number; it refuses a pair whose cdr is not a pair
  and everything else that is neither \<open>#f\<close> nor a number.  A fixnum from 0 upwards
  within the range of \<open>int\<close> is split into seconds and microseconds, and a list that
  begins with two fixnums that are not negative gives these two.  When it refuses,
  \<open>select\<close> is not called: \<open>select_int\<close> and \<open>Scm_SysSelectX\<close> leave the world as it is,
  and \<open>Scm_SysSelect\<close> has made its copies but no call.
\<close>

theorem bad_timeval_raised_before_select:
  "(- 2147483648 \<le> val \<and> val < 0 \<longrightarrow> isl (select_timeval nl (SCM_INT val)))
   \<and> (0 \<le> val \<and> val < 2147483648 \<longrightarrow>
        select_timeval nl (SCM_INT val) = Inr (Some (val div 1000000, val mod 1000000)))
   \<and> (helpers_sound nl \<longrightarrow>
        (n < 0 \<longrightarrow> isl (select_timeval nl (SCM_BIGNUM n)))
      \<and> isl (select_timeval nl (SCM_FLONUM x)) = (x \<le> - 1)
      \<and> (scm_negative sec \<or> scm_negative usec \<or> \<not> scm_number sec \<or> \<not> scm_number usec \<longrightarrow>
           isl (select_timeval nl (SCM_PAIR sec (SCM_PAIR usec rest))))
      \<and> (0 \<le> isec \<and> 0 \<le> iusec \<longrightarrow>
           select_timeval nl (SCM_PAIR (SCM_INT isec) (SCM_PAIR (SCM_INT iusec) rest))
           = Inr (Some (isec, iusec))))
   \<and> (\<not> SCM_PAIRP d \<longrightarrow> isl (select_timeval nl (SCM_PAIR a d)))
   \<and> isl (select_timeval nl SCM_NIL) \<and> isl (select_timeval nl (SCM_STRING s))
   \<and> isl (select_timeval nl (SCM_PORT port)) \<and> isl (select_timeval nl (SCM_SYS_FDSET addr))
   \<and> (select_timeval nl timeout = Inl err \<longrightarrow>
        select_int nl sel r wr e timeout w = (Inl err, w)
        \<and> snd (Scm_SysSelectX nl sel rfds wfds efds timeout w) = w
        \<and> select_calls (snd (Scm_SysSelect nl sel rfds wfds efds timeout w)) = select_calls w
        \<and> isl (fst (Scm_SysSelectX nl sel rfds wfds efds timeout w))
        \<and> isl (fst (Scm_SysSelect nl sel rfds wfds efds timeout w)))"
proof (intro conjI impI)
  show "isl (select_timeval nl (SCM_INT val))" if "- 2147483648 \<le> val \<and> val < 0"
    using that c_int_in_range [of val] by simp
  show "select_timeval nl (SCM_INT val) = Inr (Some (val div 1000000, val mod 1000000))"
    if "0 \<le> val \<and> val < 2147483648"
    using that c_int_in_range [of val] by simp
  show "isl (select_timeval nl (SCM_PAIR a d))" if "\<not> SCM_PAIRP d"
    using that by (cases d) simp_all
next
  assume h: "helpers_sound nl"
  show "isl (select_timeval nl (SCM_BIGNUM n))" if "n < 0"
    using that h by (simp add: helpers_sound_def)
  show "isl (select_timeval nl (SCM_FLONUM x)) = (x \<le> - 1)"
    using h by (simp add: helpers_sound_def)
  show "isl (select_timeval nl (SCM_PAIR sec (SCM_PAIR usec rest)))"
    if "scm_negative sec \<or> scm_negative usec \<or> \<not> scm_number sec \<or> \<not> scm_number usec"
    using that pair_negative_refused [OF h] pair_not_number_refused [OF h] by blast
  show "select_timeval nl (SCM_PAIR (SCM_INT isec) (SCM_PAIR (SCM_INT iusec) rest))
           = Inr (Some (isec, iusec))" if "0 \<le> isec \<and> 0 \<le> iusec"
    using that h by (simp add: helpers_sound_def)
next
  assume bad: "select_timeval nl timeout = Inl err"
  show "select_int nl sel r wr e timeout w = (Inl err, w)"
    using bad by (rule select_int_bad_timeval)
  show "snd (Scm_SysSelectX nl sel rfds wfds efds timeout w) = w"
    using bad by (simp add: Scm_SysSelectX_def select_int_bad_timeval split: sum.splits)
  show "isl (fst (Scm_SysSelectX nl sel rfds wfds efds timeout w))"
    using bad by (simp add: Scm_SysSelectX_def select_int_bad_timeval split: sum.splits)
  show "select_calls (snd (Scm_SysSelect nl sel rfds wfds efds timeout w)) = select_calls w"
    using bad
    by (simp add: Scm_SysSelect_def select_int_bad_timeval Let_def copy_if_present_calls
        split: sum.splits)
  show "isl (fst (Scm_SysSelect nl sel rfds wfds efds timeout w))"
    using bad by (simp add: Scm_SysSelect_def select_int_bad_timeval Let_def split: sum.splits)
qed simp_all

text \<open>
  Timeouts that are refused (among them two flonums), one that is accepted, and a
  refused call.
\<close>

theorem bad_timeval_raised_before_select_witness:
  "isl (select_timeval c_numlib (SCM_INT (- 1)))
   \<and> isl (select_timeval c_numlib (SCM_BIGNUM (- 5000000000)))
   \<and> isl (select_timeval c_numlib (SCM_FLONUM (- (5 / 2))))
   \<and> isl (select_timeval c_numlib (scm_list [SCM_INT 1, SCM_INT (- 1)]))
   \<and> isl (select_timeval c_numlib (scm_list [SCM_FLONUM (- (1 / 2)), SCM_INT 0]))
   \<and> isl (select_timeval c_numlib (scm_list [SCM_STRING ''1'', SCM_INT 0]))
   \<and> isl (select_timeval c_numlib (SCM_PAIR (SCM_INT 1) (SCM_INT 2)))
   \<and> select_timeval c_numlib (scm_list [SCM_INT 1, SCM_INT 500000]) = Inr (Some (1, 500000))
   \<and> select_timeval c_numlib (SCM_INT 2500000) = Inr (Some (2, 500000))
   \<and> Scm_SysSelectX c_numlib example_select (SCM_SYS_FDSET 0) SCM_FALSE SCM_FALSE
        (SCM_INT (- 1)) example_world
      = (Inl (Bad_Timeval (SCM_INT (- 1))), example_world)"
proof -
  note t = bad_timeval_raised_before_select [where nl = c_numlib and val = "- 1"
      and n = "- 5000000000" and x = "- (5 / 2)" and sec = "SCM_INT 1" and usec = "SCM_INT (- 1)"
      and rest = SCM_NIL and isec = 1 and iusec = 500000
      and a = "SCM_INT 1" and d = "SCM_INT 2" and timeout = "SCM_INT (- 1)"
      and err = "Bad_Timeval (SCM_INT (- 1))" and sel = example_select
      and rfds = "SCM_SYS_FDSET 0" and wfds = SCM_FALSE and efds = SCM_FALSE
      and w = example_world]
  note u = bad_timeval_raised_before_select [where nl = c_numlib
      and sec = "SCM_FLONUM (- (1 / 2))" and usec = "SCM_INT 0" and rest = SCM_NIL]
  note v = bad_timeval_raised_before_select [where nl = c_numlib
      and sec = "SCM_STRING ''1''" and usec = "SCM_INT 0" and rest = SCM_NIL]
  have bad: "select_timeval c_numlib (SCM_INT (- 1)) = Inl (Bad_Timeval (SCM_INT (- 1)))"
    by (simp add: c_int_def)
  have x: "snd (Scm_SysSelectX c_numlib example_select (SCM_SYS_FDSET 0) SCM_FALSE SCM_FALSE
        (SCM_INT (- 1)) example_world) = example_world"
    using t bad by blast
  have y: "fst (Scm_SysSelectX c_numlib example_select (SCM_SYS_FDSET 0) SCM_FALSE SCM_FALSE
        (SCM_INT (- 1)) example_world) = Inl (Bad_Timeval (SCM_INT (- 1)))"
    using bad by (simp add: Scm_SysSelectX_def select_int_def)
  from x y have call: "Scm_SysSelectX c_numlib example_select (SCM_SYS_FDSET 0) SCM_FALSE SCM_FALSE
        (SCM_INT (- 1)) example_world
      = (Inl (Bad_Timeval (SCM_INT (- 1))), example_world)"
    by (metis prod.collapse)
  note f = bad_timeval_raised_before_select [where nl = c_numlib and val = 2500000]
  from t u v f c_numlib_sound call show ?thesis by (simp add: scm_list_def)
qed

text \<open>
  The claim as written has every negative component and every malformed value
  refused.  A list of more than two elements is accepted on its first two, whatever
  follows, and \<open>select\<close> is called with them; a flonum between \<open>-1\<close> and 0 loses its
  fraction and is accepted as 0; a fixnum below the range of \<open>int\<close> wraps around, so
  that \<open>-4294967296\<close> is taken for 0.
\<close>

theorem timeouts_accepted_against_the_claim:
  "select_timeval c_numlib (scm_list [SCM_INT 1, SCM_INT 2, SCM_INT (- 3)]) = Inr (Some (1, 2))
   \<and> select_calls (snd (Scm_SysSelectX c_numlib example_select SCM_FALSE SCM_FALSE SCM_FALSE
        (scm_list [SCM_INT 1, SCM_INT 2, SCM_INT (- 3)]) example_world))
      = [(1, None, None, None, Some (1, 2))]
   \<and> select_timeval c_numlib (SCM_FLONUM (- (1 / 2))) = Inr (Some (0, 0))
   \<and> select_timeval c_numlib (SCM_INT (- 4294967296)) = Inr (Some (0, 0))"
  by (simp add: c_numlib_def scm_list_def Scm_SysSelectX_def select_int_def
      select_maxfds_def fdset_of_def store_fdset_def example_world_def example_select_def c_int_def)

subsection \<open>Facts about the store\<close>

lemma store_fdset_other:
  "p \<noteq> Some a \<Longrightarrow> objs (store_fdset p s w) a = objs w a"
  by (cases p) (auto simp: store_fdset_def)

lemma store_fdset_same:
  "objs (store_fdset (Some a) s w) a = (objs w a)\<lparr>fdset := s\<rparr>"
  by (simp add: store_fdset_def)

lemma store_fdset_next: "next_addr (store_fdset p s w) = next_addr w"
  by (cases p) (auto simp: store_fdset_def)

lemma copy_if_present_props:
  "copy_if_present p w = (c, w') \<Longrightarrow>
   next_addr w \<le> next_addr w'
   \<and> (\<forall>a. a < next_addr w \<longrightarrow> objs w' a = objs w a)
   \<and> (p = None \<longrightarrow> c = None)
   \<and> (\<forall>a. p = Some a \<longrightarrow> c = Some (next_addr w) \<and> next_addr w < next_addr w'
          \<and> objs w' (next_addr w) = \<lparr>maxfd = maxfd (objs w a), fdset = fdset (objs w a)\<rparr>)"
  by (cases p) (auto simp: copy_if_present_def fdset_copy_def)

lemma select_int_touches:
  "select_int nl sel r wr e timeout w = (res, w') \<Longrightarrow>
   Some a \<noteq> r \<Longrightarrow> Some a \<noteq> wr \<Longrightarrow> Some a \<noteq> e \<Longrightarrow> objs w' a = objs w a"
  by (auto simp: select_int_def Let_def store_fdset_other split: sum.splits if_splits)

lemma select_int_maxfd:
  "select_int nl sel r wr e timeout w = (res, w') \<Longrightarrow> maxfd (objs w' a) = maxfd (objs w a)"
proof -
  have m: "maxfd (objs (store_fdset p s v) a) = maxfd (objs v a)" for p s and v :: world
    by (cases p) (auto simp: store_fdset_def)
  assume "select_int nl sel r wr e timeout w = (res, w')"
  then show ?thesis
    by (auto simp: select_int_def Let_def m split: sum.splits if_splits)
qed

lemma select_int_result:
  "select_int nl sel r wr e timeout w = (Inr (n, ro, wo, eo), w') \<Longrightarrow>
   ro = fdset_obj r \<and> wo = fdset_obj wr \<and> eo = fdset_obj e"
  by (auto simp: select_int_def Let_def split: sum.splits if_splits)

lemma select_checkfd_obj: "select_checkfd fds = Inr p \<Longrightarrow> fdset_obj p = fds"
  by (cases fds) (auto simp: fdset_obj_def)

lemma Scm_SysSelect_keeps:
  assumes run: "Scm_SysSelect nl sel rfds wfds efds timeout w = (res, w')"
    and a: "a < next_addr w"
  shows "objs w' a = objs w a"
proof (cases "\<exists>r wr e. select_checkfd rfds = Inr r \<and> select_checkfd wfds = Inr wr
                 \<and> select_checkfd efds = Inr e")
  case False
  with run have "w' = w" by (auto simp: Scm_SysSelect_def split: sum.splits)
  then show ?thesis by simp
next
  case True
  then obtain r wr e where ck: "select_checkfd rfds = Inr r" "select_checkfd wfds = Inr wr"
    "select_checkfd efds = Inr e" by blast
  obtain rc w1 where rc: "copy_if_present r w = (rc, w1)" by (cases "copy_if_present r w")
  obtain wc w2 where wc: "copy_if_present wr w1 = (wc, w2)" by (cases "copy_if_present wr w1")
  obtain ec w3 where ec: "copy_if_present e w2 = (ec, w3)" by (cases "copy_if_present e w2")
  from run ck rc wc ec have si: "select_int nl sel rc wc ec timeout w3 = (res, w')"
    by (simp add: Scm_SysSelect_def)
  note p1 = copy_if_present_props [OF rc] and p2 = copy_if_present_props [OF wc]
    and p3 = copy_if_present_props [OF ec]
  have keep: "objs w3 a = objs w a" using p1 p2 p3 a by auto
  have "Some a \<noteq> rc" using p1 a by (cases r) auto
  moreover have "Some a \<noteq> wc" using p1 p2 a by (cases wr) auto
  moreover have "Some a \<noteq> ec" using p1 p2 p3 a by (cases e) auto
  ultimately have "objs w' a = objs w3 a" using select_int_touches [OF si] by blast
  with keep show ?thesis by simp
qed

lemma Scm_SysSelect_absent:
  assumes run: "Scm_SysSelect nl sel rfds wfds efds timeout w = (Inr (n, ro, wo, eo), w')"
  shows "(rfds = SCM_FALSE \<longrightarrow> ro = SCM_FALSE) \<and> (wfds = SCM_FALSE \<longrightarrow> wo = SCM_FALSE)
         \<and> (efds = SCM_FALSE \<longrightarrow> eo = SCM_FALSE)"
proof -
  from run obtain r wr e where ck: "select_checkfd rfds = Inr r" "select_checkfd wfds = Inr wr"
    "select_checkfd efds = Inr e" by (auto simp: Scm_SysSelect_def split: sum.splits)
  obtain rc w1 where rc: "copy_if_present r w = (rc, w1)" by (cases "copy_if_present r w")
  obtain wc w2 where wc: "copy_if_present wr w1 = (wc, w2)" by (cases "copy_if_present wr w1")
  obtain ec w3 where ec: "copy_if_present e w2 = (ec, w3)" by (cases "copy_if_present e w2")
  from run ck rc wc ec have si: "select_int nl sel rc wc ec timeout w3 = (Inr (n, ro, wo, eo), w')"
    by (simp add: Scm_SysSelect_def)
  note res = select_int_result [OF si]
  note p1 = copy_if_present_props [OF rc] and p2 = copy_if_present_props [OF wc]
    and p3 = copy_if_present_props [OF ec]
  show ?thesis using res ck p1 p2 p3 by (auto simp: fdset_obj_def)
qed

lemma Scm_SysSelect_fresh:
  assumes run: "Scm_SysSelect nl sel rfds wfds efds timeout w = (Inr (n, ro, wo, eo), w')"
  shows "(\<forall>a. rfds = SCM_SYS_FDSET a \<longrightarrow> (\<exists>c. ro = SCM_SYS_FDSET c \<and> next_addr w \<le> c))
       \<and> (\<forall>a. wfds = SCM_SYS_FDSET a \<longrightarrow> (\<exists>c. wo = SCM_SYS_FDSET c \<and> next_addr w \<le> c))
       \<and> (\<forall>a. efds = SCM_SYS_FDSET a \<longrightarrow> (\<exists>c. eo = SCM_SYS_FDSET c \<and> next_addr w \<le> c))"
proof -
  from run obtain r wr e where ck: "select_checkfd rfds = Inr r" "select_checkfd wfds = Inr wr"
    "select_checkfd efds = Inr e" by (auto simp: Scm_SysSelect_def split: sum.splits)
  obtain rc w1 where rc: "copy_if_present r w = (rc, w1)" by (cases "copy_if_present r w")
  obtain wc w2 where wc: "copy_if_present wr w1 = (wc, w2)" by (cases "copy_if_present wr w1")
  obtain ec w3 where ec: "copy_if_present e w2 = (ec, w3)" by (cases "copy_if_present e w2")
  from run ck rc wc ec have si: "select_int nl sel rc wc ec timeout w3 = (Inr (n, ro, wo, eo), w')"
    by (simp add: Scm_SysSelect_def)
  note res = select_int_result [OF si]
  note p1 = copy_if_present_props [OF rc] and p2 = copy_if_present_props [OF wc]
    and p3 = copy_if_present_props [OF ec]
  have n1: "next_addr w \<le> next_addr w1" and n2: "next_addr w1 \<le> next_addr w2" using p1 p2 by auto
  show ?thesis
  proof (intro conjI allI impI)
    fix a assume "rfds = SCM_SYS_FDSET a"
    with ck have "r = Some a" by simp
    with p1 have "rc = Some (next_addr w)" by simp
    with res show "\<exists>c. ro = SCM_SYS_FDSET c \<and> next_addr w \<le> c" by (simp add: fdset_obj_def)
  next
    fix a assume "wfds = SCM_SYS_FDSET a"
    with ck have "wr = Some a" by simp
    with p2 have "wc = Some (next_addr w1)" by simp
    with res n1 show "\<exists>c. wo = SCM_SYS_FDSET c \<and> next_addr w \<le> c" by (simp add: fdset_obj_def)
  next
    fix a assume "efds = SCM_SYS_FDSET a"
    with ck have "e = Some a" by simp
    with p3 have "ec = Some (next_addr w2)" by simp
    with res n1 n2 show "\<exists>c. eo = SCM_SYS_FDSET c \<and> next_addr w \<le> c" by (simp add: fdset_obj_def)
  qed
qed

lemma Scm_SysSelectX_in_place:
  assumes run: "Scm_SysSelectX nl sel rfds wfds efds timeout w = (Inr (n, ro, wo, eo), w')"
  shows "ro = rfds \<and> wo = wfds \<and> eo = efds
     \<and> (\<exists>nfds rs ws es tm.
           n = fst (sel nfds rs ws es tm)
         \<and> (\<forall>a. rfds = SCM_SYS_FDSET a \<longrightarrow> rs = Some (fdset (objs w a)))
         \<and> (\<forall>a. wfds = SCM_SYS_FDSET a \<longrightarrow> ws = Some (fdset (objs w a)))
         \<and> (\<forall>a. efds = SCM_SYS_FDSET a \<longrightarrow> es = Some (fdset (objs w a)))
         \<and> (\<forall>a. rfds = SCM_SYS_FDSET a \<and> wfds \<noteq> rfds \<and> efds \<noteq> rfds \<longrightarrow>
                objs w' a = (objs w a)\<lparr>fdset := fst (snd (sel nfds rs ws es tm))\<rparr>)
         \<and> (\<forall>a. wfds = SCM_SYS_FDSET a \<and> efds \<noteq> wfds \<longrightarrow>
                objs w' a = (objs w a)\<lparr>fdset := fst (snd (snd (sel nfds rs ws es tm)))\<rparr>)
         \<and> (\<forall>a. efds = SCM_SYS_FDSET a \<longrightarrow>
                fdset (objs w' a) = snd (snd (snd (sel nfds rs ws es tm)))
                \<and> maxfd (objs w' a) = maxfd (objs w a)))"
proof -
  from run obtain r wr e where ck: "select_checkfd rfds = Inr r" "select_checkfd wfds = Inr wr"
    "select_checkfd efds = Inr e" by (auto simp: Scm_SysSelectX_def split: sum.splits)
  from run ck have si: "select_int nl sel r wr e timeout w = (Inr (n, ro, wo, eo), w')"
    by (simp add: Scm_SysSelectX_def)
  from si obtain tm where tm: "select_timeval nl timeout = Inr tm"
    by (auto simp: select_int_def split: sum.splits)
  define nfds where "nfds = select_maxfds w r wr e + 1"
  define res where "res = sel nfds (fdset_of w r) (fdset_of w wr) (fdset_of w e) tm"
  from si tm have n: "n = fst res"
    and w': "w' = (store_fdset e (snd (snd (snd res)))
                    (store_fdset wr (fst (snd (snd res)))
                       (store_fdset r (fst (snd res)) w)))
                  \<lparr>select_calls := select_calls (store_fdset e (snd (snd (snd res)))
                    (store_fdset wr (fst (snd (snd res)))
                       (store_fdset r (fst (snd res)) w))) @ [(nfds, fdset_of w r, fdset_of w wr, fdset_of w e, tm)]\<rparr>"
    by (auto simp: select_int_def Let_def nfds_def res_def split: if_splits)
  have objs': "objs w' = objs (store_fdset e (snd (snd (snd res)))
                    (store_fdset wr (fst (snd (snd res)))
                       (store_fdset r (fst (snd res)) w)))"
    using w' by simp
  have outs: "ro = rfds \<and> wo = wfds \<and> eo = efds"
    using select_int_result [OF si] ck by (simp add: select_checkfd_obj)
  have "n = fst (sel nfds (fdset_of w r) (fdset_of w wr) (fdset_of w e) tm)
         \<and> (\<forall>a. rfds = SCM_SYS_FDSET a \<longrightarrow> fdset_of w r = Some (fdset (objs w a)))
         \<and> (\<forall>a. wfds = SCM_SYS_FDSET a \<longrightarrow> fdset_of w wr = Some (fdset (objs w a)))
         \<and> (\<forall>a. efds = SCM_SYS_FDSET a \<longrightarrow> fdset_of w e = Some (fdset (objs w a)))
         \<and> (\<forall>a. rfds = SCM_SYS_FDSET a \<and> wfds \<noteq> rfds \<and> efds \<noteq> rfds \<longrightarrow>
                objs w' a = (objs w a)\<lparr>fdset := fst (snd (sel nfds (fdset_of w r) (fdset_of w wr) (fdset_of w e) tm))\<rparr>)
         \<and> (\<forall>a. wfds = SCM_SYS_FDSET a \<and> efds \<noteq> wfds \<longrightarrow>
                objs w' a = (objs w a)\<lparr>fdset := fst (snd (snd (sel nfds (fdset_of w r) (fdset_of w wr) (fdset_of w e) tm)))\<rparr>)
         \<and> (\<forall>a. efds = SCM_SYS_FDSET a \<longrightarrow>
                fdset (objs w' a) = snd (snd (snd (sel nfds (fdset_of w r) (fdset_of w wr) (fdset_of w e) tm)))
                \<and> maxfd (objs w' a) = maxfd (objs w a))"
  proof (intro conjI allI impI)
    show "n = fst (sel nfds (fdset_of w r) (fdset_of w wr) (fdset_of w e) tm)"
      using n res_def by simp
  next
    fix a assume "rfds = SCM_SYS_FDSET a"
    with ck show "fdset_of w r = Some (fdset (objs w a))" by (auto simp: fdset_of_def)
  next
    fix a assume "wfds = SCM_SYS_FDSET a"
    with ck show "fdset_of w wr = Some (fdset (objs w a))" by (auto simp: fdset_of_def)
  next
    fix a assume "efds = SCM_SYS_FDSET a"
    with ck show "fdset_of w e = Some (fdset (objs w a))" by (auto simp: fdset_of_def)
  next
    fix a assume h: "rfds = SCM_SYS_FDSET a \<and> wfds \<noteq> rfds \<and> efds \<noteq> rfds"
    with ck have r: "r = Some a" by simp
    from h ck have "wr \<noteq> Some a" "e \<noteq> Some a"
      using select_checkfd_obj [of wfds wr] select_checkfd_obj [of efds e]
      by (auto simp: fdset_obj_def)
    then show "objs w' a = (objs w a)\<lparr>fdset := fst (snd (sel nfds (fdset_of w r) (fdset_of w wr) (fdset_of w e) tm))\<rparr>"
      using objs' r by (simp add: store_fdset_other store_fdset_same res_def)
  next
    fix a assume h: "wfds = SCM_SYS_FDSET a \<and> efds \<noteq> wfds"
    with ck have r: "wr = Some a" by simp
    from h ck have ne: "e \<noteq> Some a"
      using select_checkfd_obj [of efds e] by (auto simp: fdset_obj_def)
    have "objs w' a = (objs (store_fdset r (fst (snd res)) w) a)\<lparr>fdset := fst (snd (snd res))\<rparr>"
      using objs' r ne by (simp add: store_fdset_other store_fdset_same)
    moreover have "(objs (store_fdset r (fst (snd res)) w) a)\<lparr>fdset := fst (snd (snd res))\<rparr>
                   = (objs w a)\<lparr>fdset := fst (snd (snd res))\<rparr>"
      by (cases r) (auto simp: store_fdset_def)
    ultimately show "objs w' a = (objs w a)\<lparr>fdset := fst (snd (snd (sel nfds (fdset_of w r) (fdset_of w wr) (fdset_of w e) tm)))\<rparr>"
      by (simp add: res_def)
  next
    fix a assume h: "efds = SCM_SYS_FDSET a"
    with ck have r: "e = Some a" by simp
    show "fdset (objs w' a) = snd (snd (snd (sel nfds (fdset_of w r) (fdset_of w wr) (fdset_of w e) tm)))"
      using objs' r by (simp add: store_fdset_same res_def)
    show "maxfd (objs w' a) = maxfd (objs w a)"
      using select_int_maxfd [OF si] .
  qed
  with outs show ?thesis by blast
qed

lemma select_int_value:
  assumes tm: "select_timeval nl timeout = Inr tm"
    and out: "out = sel (select_maxfds w r wr e + 1) (fdset_of w r) (fdset_of w wr) (fdset_of w e) tm"
    and run: "select_int nl sel r wr e timeout w = (res, w')"
  shows "res = (if fst out < 0 then Inl Select_Failed
                else Inr (fst out, fdset_obj r, fdset_obj wr, fdset_obj e))"
    and "select_calls w'
           = select_calls w
             @ [(select_maxfds w r wr e + 1, fdset_of w r, fdset_of w wr, fdset_of w e, tm)]"
    and "objs w' = objs (store_fdset e (snd (snd (snd out)))
                      (store_fdset wr (fst (snd (snd out)))
                         (store_fdset r (fst (snd out)) w)))"
proof -
  have calls: "select_calls (store_fdset p s v) = select_calls v" for p s and v :: world
    by (cases p) (auto simp: store_fdset_def)
  from tm out run show "res = (if fst out < 0 then Inl Select_Failed
                else Inr (fst out, fdset_obj r, fdset_obj wr, fdset_obj e))"
    by (auto simp: select_int_def Let_def split: if_splits)
  from tm out run show "select_calls w'
           = select_calls w
             @ [(select_maxfds w r wr e + 1, fdset_of w r, fdset_of w wr, fdset_of w e, tm)]"
    by (auto simp: select_int_def Let_def calls split: if_splits)
  from tm out run show "objs w' = objs (store_fdset e (snd (snd (snd out)))
                      (store_fdset wr (fst (snd (snd out)))
                         (store_fdset r (fst (snd out)) w)))"
    by (auto simp: select_int_def Let_def split: if_splits)
qed

text \<open>A pointer and its copy: both absent, or the copy holds what the original holds.\<close>

definition copy_of :: "world \<Rightarrow> world \<Rightarrow> nat option \<Rightarrow> nat option \<Rightarrow> bool" where
  "copy_of w v p pc =
     (case p of
        None \<Rightarrow> pc = None
      | Some a \<Rightarrow>
          (\<exists>c. pc = Some c \<and> next_addr w \<le> c
               \<and> objs v c = \<lparr>maxfd = maxfd (objs w a), fdset = fdset (objs w a)\<rparr>))"

lemma copy_of_fdset: "copy_of w v p pc \<Longrightarrow> fdset_of v pc = fdset_of w p"
  by (cases p) (auto simp: copy_of_def fdset_of_def)

lemma copy_of_maxfd:
  "copy_of w v p pc \<Longrightarrow>
   map_option (\<lambda>a. maxfd (objs v a)) pc = map_option (\<lambda>a. maxfd (objs w a)) p"
  by (cases p) (auto simp: copy_of_def)

lemma select_maxfds_by_maxfd:
  "select_maxfds w r wr e
   = (let m = 0;
          m = (case map_option (\<lambda>a. maxfd (objs w a)) r of Some x \<Rightarrow> x | None \<Rightarrow> m);
          m = (case map_option (\<lambda>a. maxfd (objs w a)) wr of
                 Some x \<Rightarrow> (if x > m then x else m) | None \<Rightarrow> m);
          m = (case map_option (\<lambda>a. maxfd (objs w a)) e of
                 Some x \<Rightarrow> (if x > m then x else m) | None \<Rightarrow> m)
      in m)"
  by (cases r; cases wr; cases e) (simp_all add: select_maxfds_def Let_def)

lemma select_maxfds_copies:
  "copy_of w v r rc \<Longrightarrow> copy_of w v wr wc \<Longrightarrow> copy_of w v e ec \<Longrightarrow>
   select_maxfds v rc wc ec = select_maxfds w r wr e"
  by (simp only: select_maxfds_by_maxfd copy_of_maxfd)

lemma three_copies:
  assumes rc: "copy_if_present r w = (rc, w1)" and wc: "copy_if_present wr w1 = (wc, w2)"
    and ec: "copy_if_present e w2 = (ec, w3)"
    and valid: "\<forall>a. r = Some a \<or> wr = Some a \<or> e = Some a \<longrightarrow> a < next_addr w"
  shows "copy_of w w3 r rc \<and> copy_of w w3 wr wc \<and> copy_of w w3 e ec
         \<and> (\<forall>c. rc = Some c \<longrightarrow> wc \<noteq> Some c \<and> ec \<noteq> Some c)
         \<and> (\<forall>c. wc = Some c \<longrightarrow> ec \<noteq> Some c)"
proof -
  note p1 = copy_if_present_props [OF rc] and p2 = copy_if_present_props [OF wc]
    and p3 = copy_if_present_props [OF ec]
  have n1: "next_addr w \<le> next_addr w1" and n2: "next_addr w1 \<le> next_addr w2"
    and n3: "next_addr w2 \<le> next_addr w3" using p1 p2 p3 by auto
  have k1: "\<And>x. x < next_addr w \<Longrightarrow> objs w1 x = objs w x" using p1 by blast
  have k2: "\<And>x. x < next_addr w1 \<Longrightarrow> objs w2 x = objs w1 x" using p2 by blast
  have k3: "\<And>x. x < next_addr w2 \<Longrightarrow> objs w3 x = objs w2 x" using p3 by blast
  have cr: "copy_of w w3 r rc"
  proof (cases r)
    case None
    with p1 show ?thesis by (simp add: copy_of_def)
  next
    case (Some a)
    with p1 have c: "rc = Some (next_addr w)" "next_addr w < next_addr w1"
      "objs w1 (next_addr w) = \<lparr>maxfd = maxfd (objs w a), fdset = fdset (objs w a)\<rparr>" by auto
    have "objs w3 (next_addr w) = objs w1 (next_addr w)" using k2 k3 c(2) n2 by simp
    with c Some show ?thesis by (simp add: copy_of_def)
  qed
  have cw: "copy_of w w3 wr wc"
  proof (cases wr)
    case None
    with p2 show ?thesis by (simp add: copy_of_def)
  next
    case (Some b)
    with p2 have c: "wc = Some (next_addr w1)" "next_addr w1 < next_addr w2"
      "objs w2 (next_addr w1) = \<lparr>maxfd = maxfd (objs w1 b), fdset = fdset (objs w1 b)\<rparr>" by auto
    from Some valid have "b < next_addr w" by simp
    then have "objs w1 b = objs w b" by (rule k1)
    moreover have "objs w3 (next_addr w1) = objs w2 (next_addr w1)" using k3 c(2) by simp
    ultimately show ?thesis using c Some n1 by (simp add: copy_of_def)
  qed
  have ce: "copy_of w w3 e ec"
  proof (cases e)
    case None
    with p3 show ?thesis by (simp add: copy_of_def)
  next
    case (Some d)
    with p3 have c: "ec = Some (next_addr w2)"
      "objs w3 (next_addr w2) = \<lparr>maxfd = maxfd (objs w2 d), fdset = fdset (objs w2 d)\<rparr>" by auto
    from Some valid have d: "d < next_addr w" by simp
    then have "objs w1 d = objs w d" by (rule k1)
    moreover have "objs w2 d = objs w1 d" using k2 d n1 by simp
    ultimately show ?thesis using c Some n1 n2 by (simp add: copy_of_def)
  qed
  have d1: "\<forall>c. rc = Some c \<longrightarrow> wc \<noteq> Some c \<and> ec \<noteq> Some c"
  proof (intro allI impI)
    fix c assume "rc = Some c"
    with p1 have c: "c = next_addr w" "next_addr w < next_addr w1" by (cases r; auto)+
    have "wc \<noteq> Some c" using p2 c by (cases wr) auto
    moreover have "ec \<noteq> Some c" using p3 c n2 by (cases e) auto
    ultimately show "wc \<noteq> Some c \<and> ec \<noteq> Some c" ..
  qed
  have d2: "\<forall>c. wc = Some c \<longrightarrow> ec \<noteq> Some c"
  proof (intro allI impI)
    fix c assume "wc = Some c"
    with p2 have c: "c = next_addr w1" "next_addr w1 < next_addr w2" by (cases wr; auto)+
    show "ec \<noteq> Some c" using p3 c by (cases e) auto
  qed
  from cr cw ce d1 d2 show ?thesis by blast
qed

lemma Scm_SysSelect_on_copies:
  assumes ck: "select_checkfd rfds = Inr r" "select_checkfd wfds = Inr wr"
      "select_checkfd efds = Inr e"
    and tm: "select_timeval nl timeout = Inr tm"
    and valid: "\<forall>a. r = Some a \<or> wr = Some a \<or> e = Some a \<longrightarrow> a < next_addr w"
    and out: "out = sel (select_maxfds w r wr e + 1) (fdset_of w r) (fdset_of w wr) (fdset_of w e) tm"
    and run: "Scm_SysSelect nl sel rfds wfds efds timeout w = (res, w')"
  shows "select_calls w'
           = select_calls w
             @ [(select_maxfds w r wr e + 1, fdset_of w r, fdset_of w wr, fdset_of w e, tm)]
       \<and> (fst out < 0 \<longrightarrow> res = Inl Select_Failed)
       \<and> (0 \<le> fst out \<longrightarrow>
            (\<exists>ro wo eo. res = Inr (fst out, ro, wo, eo)
               \<and> (r = None \<longrightarrow> ro = SCM_FALSE) \<and> (wr = None \<longrightarrow> wo = SCM_FALSE)
               \<and> (e = None \<longrightarrow> eo = SCM_FALSE)
               \<and> (\<forall>a. r = Some a \<longrightarrow>
                     (\<exists>c. ro = SCM_SYS_FDSET c \<and> next_addr w \<le> c
                        \<and> objs w' c = \<lparr>maxfd = maxfd (objs w a), fdset = fst (snd out)\<rparr>))
               \<and> (\<forall>a. wr = Some a \<longrightarrow>
                     (\<exists>c. wo = SCM_SYS_FDSET c \<and> next_addr w \<le> c
                        \<and> objs w' c = \<lparr>maxfd = maxfd (objs w a), fdset = fst (snd (snd out))\<rparr>))
               \<and> (\<forall>a. e = Some a \<longrightarrow>
                     (\<exists>c. eo = SCM_SYS_FDSET c \<and> next_addr w \<le> c
                        \<and> objs w' c = \<lparr>maxfd = maxfd (objs w a), fdset = snd (snd (snd out))\<rparr>))))"
proof -
  obtain rc w1 where rc: "copy_if_present r w = (rc, w1)" by (cases "copy_if_present r w")
  obtain wc w2 where wc: "copy_if_present wr w1 = (wc, w2)" by (cases "copy_if_present wr w1")
  obtain ec w3 where ec: "copy_if_present e w2 = (ec, w3)" by (cases "copy_if_present e w2")
  from run ck rc wc ec have si: "select_int nl sel rc wc ec timeout w3 = (res, w')"
    by (simp add: Scm_SysSelect_def)
  from three_copies [OF rc wc ec valid]
  have cr: "copy_of w w3 r rc" and cw: "copy_of w w3 wr wc" and ce: "copy_of w w3 e ec"
    and d1: "\<forall>c. rc = Some c \<longrightarrow> wc \<noteq> Some c \<and> ec \<noteq> Some c"
    and d2: "\<forall>c. wc = Some c \<longrightarrow> ec \<noteq> Some c" by blast+
  have args: "select_maxfds w3 rc wc ec = select_maxfds w r wr e"
    "fdset_of w3 rc = fdset_of w r" "fdset_of w3 wc = fdset_of w wr" "fdset_of w3 ec = fdset_of w e"
    using select_maxfds_copies [OF cr cw ce] copy_of_fdset [OF cr] copy_of_fdset [OF cw]
      copy_of_fdset [OF ce] by simp_all
  have out3: "out = sel (select_maxfds w3 rc wc ec + 1) (fdset_of w3 rc) (fdset_of w3 wc)
                      (fdset_of w3 ec) tm"
    using out args by simp
  have calls3: "select_calls w3 = select_calls w"
    using copy_if_present_calls [of r w] copy_if_present_calls [of wr w1]
      copy_if_present_calls [of e w2] rc wc ec by simp
  note v = select_int_value [OF tm out3 si]
  have c1: "select_calls w'
           = select_calls w
             @ [(select_maxfds w r wr e + 1, fdset_of w r, fdset_of w wr, fdset_of w e, tm)]"
    using v(2) args calls3 by simp
  have c2: "fst out < 0 \<longrightarrow> res = Inl Select_Failed" using v(1) by simp
  have objs': "objs w' = objs (store_fdset ec (snd (snd (snd out)))
                      (store_fdset wc (fst (snd (snd out)))
                         (store_fdset rc (fst (snd out)) w3)))" by (rule v(3))
  have ro: "\<forall>a. r = Some a \<longrightarrow>
              (\<exists>c. fdset_obj rc = SCM_SYS_FDSET c \<and> next_addr w \<le> c
                 \<and> objs w' c = \<lparr>maxfd = maxfd (objs w a), fdset = fst (snd out)\<rparr>)"
  proof (intro allI impI)
    fix a assume "r = Some a"
    with cr obtain c where c: "rc = Some c" "next_addr w \<le> c"
      "objs w3 c = \<lparr>maxfd = maxfd (objs w a), fdset = fdset (objs w a)\<rparr>"
      by (auto simp: copy_of_def)
    from d1 c have "wc \<noteq> Some c" "ec \<noteq> Some c" by simp_all
    then have "objs w' c = (objs w3 c)\<lparr>fdset := fst (snd out)\<rparr>"
      using objs' c(1) by (simp add: store_fdset_other store_fdset_same)
    with c show "\<exists>c. fdset_obj rc = SCM_SYS_FDSET c \<and> next_addr w \<le> c
                 \<and> objs w' c = \<lparr>maxfd = maxfd (objs w a), fdset = fst (snd out)\<rparr>"
      by (simp add: fdset_obj_def)
  qed
  have wo: "\<forall>a. wr = Some a \<longrightarrow>
              (\<exists>c. fdset_obj wc = SCM_SYS_FDSET c \<and> next_addr w \<le> c
                 \<and> objs w' c = \<lparr>maxfd = maxfd (objs w a), fdset = fst (snd (snd out))\<rparr>)"
  proof (intro allI impI)
    fix a assume "wr = Some a"
    with cw obtain c where c: "wc = Some c" "next_addr w \<le> c"
      "objs w3 c = \<lparr>maxfd = maxfd (objs w a), fdset = fdset (objs w a)\<rparr>"
      by (auto simp: copy_of_def)
    from d1 d2 c have ne: "rc \<noteq> Some c" "ec \<noteq> Some c" by auto
    have "objs w' c = (objs (store_fdset rc (fst (snd out)) w3) c)\<lparr>fdset := fst (snd (snd out))\<rparr>"
      using objs' c(1) ne by (simp add: store_fdset_other store_fdset_same)
    also have "objs (store_fdset rc (fst (snd out)) w3) c = objs w3 c"
      using ne by (simp add: store_fdset_other)
    finally show "\<exists>c. fdset_obj wc = SCM_SYS_FDSET c \<and> next_addr w \<le> c
                 \<and> objs w' c = \<lparr>maxfd = maxfd (objs w a), fdset = fst (snd (snd out))\<rparr>"
      using c by (simp add: fdset_obj_def)
  qed
  have eo: "\<forall>a. e = Some a \<longrightarrow>
              (\<exists>c. fdset_obj ec = SCM_SYS_FDSET c \<and> next_addr w \<le> c
                 \<and> objs w' c = \<lparr>maxfd = maxfd (objs w a), fdset = snd (snd (snd out))\<rparr>)"
  proof (intro allI impI)
    fix a assume "e = Some a"
    with ce obtain c where c: "ec = Some c" "next_addr w \<le> c"
      "objs w3 c = \<lparr>maxfd = maxfd (objs w a), fdset = fdset (objs w a)\<rparr>"
      by (auto simp: copy_of_def)
    from d1 d2 c have ne: "rc \<noteq> Some c" "wc \<noteq> Some c" by auto
    have "objs w' c = (objs (store_fdset wc (fst (snd (snd out)))
                         (store_fdset rc (fst (snd out)) w3)) c)\<lparr>fdset := snd (snd (snd out))\<rparr>"
      using objs' c(1) by (simp add: store_fdset_same)
    also have "objs (store_fdset wc (fst (snd (snd out)))
                         (store_fdset rc (fst (snd out)) w3)) c = objs w3 c"
      using ne by (simp add: store_fdset_other)
    finally show "\<exists>c. fdset_obj ec = SCM_SYS_FDSET c \<and> next_addr w \<le> c
                 \<and> objs w' c = \<lparr>maxfd = maxfd (objs w a), fdset = snd (snd (snd out))\<rparr>"
      using c by (simp add: fdset_obj_def)
  qed
  have absent: "(r = None \<longrightarrow> fdset_obj rc = SCM_FALSE) \<and> (wr = None \<longrightarrow> fdset_obj wc = SCM_FALSE)
      \<and> (e = None \<longrightarrow> fdset_obj ec = SCM_FALSE)"
    using cr cw ce by (auto simp: copy_of_def fdset_obj_def)
  have c3: "0 \<le> fst out \<longrightarrow>
            (\<exists>ro wo eo. res = Inr (fst out, ro, wo, eo)
               \<and> (r = None \<longrightarrow> ro = SCM_FALSE) \<and> (wr = None \<longrightarrow> wo = SCM_FALSE)
               \<and> (e = None \<longrightarrow> eo = SCM_FALSE)
               \<and> (\<forall>a. r = Some a \<longrightarrow>
                     (\<exists>c. ro = SCM_SYS_FDSET c \<and> next_addr w \<le> c
                        \<and> objs w' c = \<lparr>maxfd = maxfd (objs w a), fdset = fst (snd out)\<rparr>))
               \<and> (\<forall>a. wr = Some a \<longrightarrow>
                     (\<exists>c. wo = SCM_SYS_FDSET c \<and> next_addr w \<le> c
                        \<and> objs w' c = \<lparr>maxfd = maxfd (objs w a), fdset = fst (snd (snd out))\<rparr>))
               \<and> (\<forall>a. e = Some a \<longrightarrow>
                     (\<exists>c. eo = SCM_SYS_FDSET c \<and> next_addr w \<le> c
                        \<and> objs w' c = \<lparr>maxfd = maxfd (objs w a), fdset = snd (snd (snd out))\<rparr>)))"
  proof
    assume "0 \<le> fst out"
    with v(1) have "res = Inr (fst out, fdset_obj rc, fdset_obj wc, fdset_obj ec)" by simp
    with absent ro wo eo show "\<exists>ro wo eo. res = Inr (fst out, ro, wo, eo)
               \<and> (r = None \<longrightarrow> ro = SCM_FALSE) \<and> (wr = None \<longrightarrow> wo = SCM_FALSE)
               \<and> (e = None \<longrightarrow> eo = SCM_FALSE)
               \<and> (\<forall>a. r = Some a \<longrightarrow>
                     (\<exists>c. ro = SCM_SYS_FDSET c \<and> next_addr w \<le> c
                        \<and> objs w' c = \<lparr>maxfd = maxfd (objs w a), fdset = fst (snd out)\<rparr>))
               \<and> (\<forall>a. wr = Some a \<longrightarrow>
                     (\<exists>c. wo = SCM_SYS_FDSET c \<and> next_addr w \<le> c
                        \<and> objs w' c = \<lparr>maxfd = maxfd (objs w a), fdset = fst (snd (snd out))\<rparr>))
               \<and> (\<forall>a. e = Some a \<longrightarrow>
                     (\<exists>c. eo = SCM_SYS_FDSET c \<and> next_addr w \<le> c
                        \<and> objs w' c = \<lparr>maxfd = maxfd (objs w a), fdset = snd (snd (snd out))\<rparr>))"
      by blast
  qed
  from c1 c2 c3 show ?thesis by (intro conjI)
qed

subsection \<open>Copies and in-place results\<close>

text \<open>
  C9.  \<open>Scm_SysSelect\<close> works on copies.  Every object that existed before the call
  is unchanged, in its cached maximum and in its members; an absent set is returned as
  \<open>#f\<close> and a present one as an object that did not exist before.  When the three sets
  and the timeout are accepted (the sets being objects of the store, at addresses below
  \<open>next_addr\<close>), \<open>select\<close> is called once, with the \<open>nfds\<close> that \<open>select_int\<close>
  computes from the cached maxima of the caller's sets and with the members of the
  caller's sets, and each returned object holds the cached maximum of the caller's set
  and the members that \<open>select\<close> left.  \<open>Scm_SysSelectX\<close> returns the caller's own objects: they
  hold the members that \<open>select\<close> left, their cached maximum is unchanged.
\<close>

theorem select_copies_select_x_in_place:
  "(Scm_SysSelect nl sel rfds wfds efds timeout w = (res, w') \<longrightarrow>
      (\<forall>a. a < next_addr w \<longrightarrow> objs w' a = objs w a))
   \<and> (Scm_SysSelect nl sel rfds wfds efds timeout w = (Inr (n, ro, wo, eo), w') \<longrightarrow>
      (rfds = SCM_FALSE \<longrightarrow> ro = SCM_FALSE) \<and> (wfds = SCM_FALSE \<longrightarrow> wo = SCM_FALSE)
      \<and> (efds = SCM_FALSE \<longrightarrow> eo = SCM_FALSE)
      \<and> (\<forall>a. rfds = SCM_SYS_FDSET a \<longrightarrow> (\<exists>c. ro = SCM_SYS_FDSET c \<and> next_addr w \<le> c))
      \<and> (\<forall>a. wfds = SCM_SYS_FDSET a \<longrightarrow> (\<exists>c. wo = SCM_SYS_FDSET c \<and> next_addr w \<le> c))
      \<and> (\<forall>a. efds = SCM_SYS_FDSET a \<longrightarrow> (\<exists>c. eo = SCM_SYS_FDSET c \<and> next_addr w \<le> c)))
   \<and> (Scm_SysSelectX nl sel rfds wfds efds timeout w = (Inr (n, ro, wo, eo), w') \<longrightarrow>
      ro = rfds \<and> wo = wfds \<and> eo = efds
      \<and> (\<exists>nfds rs ws es tm.
            n = fst (sel nfds rs ws es tm)
          \<and> (\<forall>a. rfds = SCM_SYS_FDSET a \<longrightarrow> rs = Some (fdset (objs w a)))
          \<and> (\<forall>a. wfds = SCM_SYS_FDSET a \<longrightarrow> ws = Some (fdset (objs w a)))
          \<and> (\<forall>a. efds = SCM_SYS_FDSET a \<longrightarrow> es = Some (fdset (objs w a)))
          \<and> (\<forall>a. rfds = SCM_SYS_FDSET a \<and> wfds \<noteq> rfds \<and> efds \<noteq> rfds \<longrightarrow>
                 objs w' a = (objs w a)\<lparr>fdset := fst (snd (sel nfds rs ws es tm))\<rparr>)
          \<and> (\<forall>a. wfds = SCM_SYS_FDSET a \<and> efds \<noteq> wfds \<longrightarrow>
                 objs w' a = (objs w a)\<lparr>fdset := fst (snd (snd (sel nfds rs ws es tm)))\<rparr>)
          \<and> (\<forall>a. efds = SCM_SYS_FDSET a \<longrightarrow>
                 fdset (objs w' a) = snd (snd (snd (sel nfds rs ws es tm)))
                 \<and> maxfd (objs w' a) = maxfd (objs w a))))
   \<and> (select_checkfd rfds = Inr r \<and> select_checkfd wfds = Inr wr \<and> select_checkfd efds = Inr e
        \<and> select_timeval nl timeout = Inr tm
        \<and> (\<forall>a. r = Some a \<or> wr = Some a \<or> e = Some a \<longrightarrow> a < next_addr w)
        \<and> out = sel (select_maxfds w r wr e + 1) (fdset_of w r) (fdset_of w wr) (fdset_of w e) tm
        \<and> Scm_SysSelect nl sel rfds wfds efds timeout w = (res, w') \<longrightarrow>
      select_calls w'
        = select_calls w
          @ [(select_maxfds w r wr e + 1, fdset_of w r, fdset_of w wr, fdset_of w e, tm)]
      \<and> (fst out < 0 \<longrightarrow> res = Inl Select_Failed)
      \<and> (0 \<le> fst out \<longrightarrow>
           (\<exists>ro wo eo. res = Inr (fst out, ro, wo, eo)
              \<and> (r = None \<longrightarrow> ro = SCM_FALSE) \<and> (wr = None \<longrightarrow> wo = SCM_FALSE)
              \<and> (e = None \<longrightarrow> eo = SCM_FALSE)
              \<and> (\<forall>a. r = Some a \<longrightarrow>
                    (\<exists>c. ro = SCM_SYS_FDSET c \<and> next_addr w \<le> c
                       \<and> objs w' c = \<lparr>maxfd = maxfd (objs w a), fdset = fst (snd out)\<rparr>))
              \<and> (\<forall>a. wr = Some a \<longrightarrow>
                    (\<exists>c. wo = SCM_SYS_FDSET c \<and> next_addr w \<le> c
                       \<and> objs w' c = \<lparr>maxfd = maxfd (objs w a), fdset = fst (snd (snd out))\<rparr>))
              \<and> (\<forall>a. e = Some a \<longrightarrow>
                    (\<exists>c. eo = SCM_SYS_FDSET c \<and> next_addr w \<le> c
                       \<and> objs w' c = \<lparr>maxfd = maxfd (objs w a), fdset = snd (snd (snd out))\<rparr>)))))"
proof (intro conjI)
  show "Scm_SysSelect nl sel rfds wfds efds timeout w = (res, w') \<longrightarrow>
      (\<forall>a. a < next_addr w \<longrightarrow> objs w' a = objs w a)"
    using Scm_SysSelect_keeps [of nl sel rfds wfds efds timeout w res w'] by simp
  show "Scm_SysSelect nl sel rfds wfds efds timeout w = (Inr (n, ro, wo, eo), w') \<longrightarrow>
      (rfds = SCM_FALSE \<longrightarrow> ro = SCM_FALSE) \<and> (wfds = SCM_FALSE \<longrightarrow> wo = SCM_FALSE)
      \<and> (efds = SCM_FALSE \<longrightarrow> eo = SCM_FALSE)
      \<and> (\<forall>a. rfds = SCM_SYS_FDSET a \<longrightarrow> (\<exists>c. ro = SCM_SYS_FDSET c \<and> next_addr w \<le> c))
      \<and> (\<forall>a. wfds = SCM_SYS_FDSET a \<longrightarrow> (\<exists>c. wo = SCM_SYS_FDSET c \<and> next_addr w \<le> c))
      \<and> (\<forall>a. efds = SCM_SYS_FDSET a \<longrightarrow> (\<exists>c. eo = SCM_SYS_FDSET c \<and> next_addr w \<le> c))"
  proof
    assume run: "Scm_SysSelect nl sel rfds wfds efds timeout w = (Inr (n, ro, wo, eo), w')"
    from Scm_SysSelect_absent [OF run] Scm_SysSelect_fresh [OF run]
    show "(rfds = SCM_FALSE \<longrightarrow> ro = SCM_FALSE) \<and> (wfds = SCM_FALSE \<longrightarrow> wo = SCM_FALSE)
      \<and> (efds = SCM_FALSE \<longrightarrow> eo = SCM_FALSE)
      \<and> (\<forall>a. rfds = SCM_SYS_FDSET a \<longrightarrow> (\<exists>c. ro = SCM_SYS_FDSET c \<and> next_addr w \<le> c))
      \<and> (\<forall>a. wfds = SCM_SYS_FDSET a \<longrightarrow> (\<exists>c. wo = SCM_SYS_FDSET c \<and> next_addr w \<le> c))
      \<and> (\<forall>a. efds = SCM_SYS_FDSET a \<longrightarrow> (\<exists>c. eo = SCM_SYS_FDSET c \<and> next_addr w \<le> c))"
      by (elim conjE) (intro conjI; assumption)
  qed
  show "Scm_SysSelectX nl sel rfds wfds efds timeout w = (Inr (n, ro, wo, eo), w') \<longrightarrow>
      ro = rfds \<and> wo = wfds \<and> eo = efds
      \<and> (\<exists>nfds rs ws es tm.
            n = fst (sel nfds rs ws es tm)
          \<and> (\<forall>a. rfds = SCM_SYS_FDSET a \<longrightarrow> rs = Some (fdset (objs w a)))
          \<and> (\<forall>a. wfds = SCM_SYS_FDSET a \<longrightarrow> ws = Some (fdset (objs w a)))
          \<and> (\<forall>a. efds = SCM_SYS_FDSET a \<longrightarrow> es = Some (fdset (objs w a)))
          \<and> (\<forall>a. rfds = SCM_SYS_FDSET a \<and> wfds \<noteq> rfds \<and> efds \<noteq> rfds \<longrightarrow>
                 objs w' a = (objs w a)\<lparr>fdset := fst (snd (sel nfds rs ws es tm))\<rparr>)
          \<and> (\<forall>a. wfds = SCM_SYS_FDSET a \<and> efds \<noteq> wfds \<longrightarrow>
                 objs w' a = (objs w a)\<lparr>fdset := fst (snd (snd (sel nfds rs ws es tm)))\<rparr>)
          \<and> (\<forall>a. efds = SCM_SYS_FDSET a \<longrightarrow>
                 fdset (objs w' a) = snd (snd (snd (sel nfds rs ws es tm)))
                 \<and> maxfd (objs w' a) = maxfd (objs w a)))"
    by (rule impI, rule Scm_SysSelectX_in_place)
  show "select_checkfd rfds = Inr r \<and> select_checkfd wfds = Inr wr \<and> select_checkfd efds = Inr e
        \<and> select_timeval nl timeout = Inr tm
        \<and> (\<forall>a. r = Some a \<or> wr = Some a \<or> e = Some a \<longrightarrow> a < next_addr w)
        \<and> out = sel (select_maxfds w r wr e + 1) (fdset_of w r) (fdset_of w wr) (fdset_of w e) tm
        \<and> Scm_SysSelect nl sel rfds wfds efds timeout w = (res, w') \<longrightarrow>
      select_calls w'
        = select_calls w
          @ [(select_maxfds w r wr e + 1, fdset_of w r, fdset_of w wr, fdset_of w e, tm)]
      \<and> (fst out < 0 \<longrightarrow> res = Inl Select_Failed)
      \<and> (0 \<le> fst out \<longrightarrow>
           (\<exists>ro wo eo. res = Inr (fst out, ro, wo, eo)
              \<and> (r = None \<longrightarrow> ro = SCM_FALSE) \<and> (wr = None \<longrightarrow> wo = SCM_FALSE)
              \<and> (e = None \<longrightarrow> eo = SCM_FALSE)
              \<and> (\<forall>a. r = Some a \<longrightarrow>
                    (\<exists>c. ro = SCM_SYS_FDSET c \<and> next_addr w \<le> c
                       \<and> objs w' c = \<lparr>maxfd = maxfd (objs w a), fdset = fst (snd out)\<rparr>))
              \<and> (\<forall>a. wr = Some a \<longrightarrow>
                    (\<exists>c. wo = SCM_SYS_FDSET c \<and> next_addr w \<le> c
                       \<and> objs w' c = \<lparr>maxfd = maxfd (objs w a), fdset = fst (snd (snd out))\<rparr>))
              \<and> (\<forall>a. e = Some a \<longrightarrow>
                    (\<exists>c. eo = SCM_SYS_FDSET c \<and> next_addr w \<le> c
                       \<and> objs w' c = \<lparr>maxfd = maxfd (objs w a), fdset = snd (snd (snd out))\<rparr>))))"
  proof
    assume a: "select_checkfd rfds = Inr r \<and> select_checkfd wfds = Inr wr \<and> select_checkfd efds = Inr e
        \<and> select_timeval nl timeout = Inr tm
        \<and> (\<forall>a. r = Some a \<or> wr = Some a \<or> e = Some a \<longrightarrow> a < next_addr w)
        \<and> out = sel (select_maxfds w r wr e + 1) (fdset_of w r) (fdset_of w wr) (fdset_of w e) tm
        \<and> Scm_SysSelect nl sel rfds wfds efds timeout w = (res, w')"
    show "select_calls w'
        = select_calls w
          @ [(select_maxfds w r wr e + 1, fdset_of w r, fdset_of w wr, fdset_of w e, tm)]
      \<and> (fst out < 0 \<longrightarrow> res = Inl Select_Failed)
      \<and> (0 \<le> fst out \<longrightarrow>
           (\<exists>ro wo eo. res = Inr (fst out, ro, wo, eo)
              \<and> (r = None \<longrightarrow> ro = SCM_FALSE) \<and> (wr = None \<longrightarrow> wo = SCM_FALSE)
              \<and> (e = None \<longrightarrow> eo = SCM_FALSE)
              \<and> (\<forall>a. r = Some a \<longrightarrow>
                    (\<exists>c. ro = SCM_SYS_FDSET c \<and> next_addr w \<le> c
                       \<and> objs w' c = \<lparr>maxfd = maxfd (objs w a), fdset = fst (snd out)\<rparr>))
              \<and> (\<forall>a. wr = Some a \<longrightarrow>
                    (\<exists>c. wo = SCM_SYS_FDSET c \<and> next_addr w \<le> c
                       \<and> objs w' c = \<lparr>maxfd = maxfd (objs w a), fdset = fst (snd (snd out))\<rparr>))
              \<and> (\<forall>a. e = Some a \<longrightarrow>
                    (\<exists>c. eo = SCM_SYS_FDSET c \<and> next_addr w \<le> c
                       \<and> objs w' c = \<lparr>maxfd = maxfd (objs w a), fdset = snd (snd (snd out))\<rparr>))))"
      by (rule Scm_SysSelect_on_copies [of rfds r wfds wr efds e nl timeout tm w out sel res w'])
        (use a in simp_all)
  qed
qed

lemmas select_eval = Scm_SysSelect_def Scm_SysSelectX_def select_int_def select_maxfds_def
  fdset_of_def store_fdset_def fdset_obj_def copy_if_present_def fdset_copy_def
  example_world_def example_select_def c_numlib_def Let_def

text \<open>
  The set \<open>{3, 5}\<close> with descriptor 3 readable: \<open>select\<close> is called on \<open>{3, 5}\<close> with
  \<open>nfds = 6\<close>; \<open>Scm_SysSelect\<close> leaves the set as it is and returns a new object
  holding \<open>{3}\<close>, \<open>Scm_SysSelectX\<close> returns the set itself, now \<open>{3}\<close>.
\<close>

theorem select_copies_select_x_in_place_witness:
  "fst (Scm_SysSelect c_numlib example_select (SCM_SYS_FDSET 0) SCM_FALSE SCM_FALSE
          SCM_FALSE example_world)
     = Inr (1, SCM_SYS_FDSET 1, SCM_FALSE, SCM_FALSE)
   \<and> objs (snd (Scm_SysSelect c_numlib example_select (SCM_SYS_FDSET 0) SCM_FALSE SCM_FALSE
          SCM_FALSE example_world)) 0
     = \<lparr>maxfd = 5, fdset = {3, 5}\<rparr>
   \<and> select_calls (snd (Scm_SysSelect c_numlib example_select (SCM_SYS_FDSET 0) SCM_FALSE
          SCM_FALSE SCM_FALSE example_world))
     = [(6, Some {3, 5}, None, None, None)]
   \<and> objs (snd (Scm_SysSelect c_numlib example_select (SCM_SYS_FDSET 0) SCM_FALSE SCM_FALSE
          SCM_FALSE example_world)) 1
     = \<lparr>maxfd = 5, fdset = {3}\<rparr>
   \<and> fst (Scm_SysSelectX c_numlib example_select (SCM_SYS_FDSET 0) SCM_FALSE SCM_FALSE
          SCM_FALSE example_world)
     = Inr (1, SCM_SYS_FDSET 0, SCM_FALSE, SCM_FALSE)
   \<and> objs (snd (Scm_SysSelectX c_numlib example_select (SCM_SYS_FDSET 0) SCM_FALSE SCM_FALSE
          SCM_FALSE example_world)) 0
     = \<lparr>maxfd = 5, fdset = {3}\<rparr>"
proof -
  let ?S = "Scm_SysSelect c_numlib example_select (SCM_SYS_FDSET 0) SCM_FALSE SCM_FALSE
          SCM_FALSE example_world"
  let ?out = "example_select (select_maxfds example_world (Some 0) None None + 1)
                (fdset_of example_world (Some 0)) (fdset_of example_world None)
                (fdset_of example_world None) None"
  note t = select_copies_select_x_in_place [where nl = c_numlib and sel = example_select
      and rfds = "SCM_SYS_FDSET 0" and wfds = SCM_FALSE and efds = SCM_FALSE
      and timeout = SCM_FALSE and w = example_world and res = "fst ?S" and w' = "snd ?S"
      and r = "Some 0" and wr = None and e = None and tm = None and out = ?out]
  have run: "?S = (fst ?S, snd ?S)" by simp
  have "objs (snd ?S) 0 = objs example_world 0"
    by (rule t [THEN conjunct1, rule_format, OF run]) (simp add: example_world_def)
  then have keep: "objs (snd ?S) 0 = \<lparr>maxfd = 5, fdset = {3, 5}\<rparr>"
    by (simp add: example_world_def)
  have hyp: "select_checkfd (SCM_SYS_FDSET 0) = Inr (Some 0)
      \<and> select_checkfd SCM_FALSE = Inr None \<and> select_checkfd SCM_FALSE = Inr None
      \<and> select_timeval c_numlib SCM_FALSE = Inr None
      \<and> (\<forall>a. Some 0 = Some a \<or> None = Some a \<or> None = Some a
             \<longrightarrow> a < next_addr example_world)
      \<and> ?out = ?out
      \<and> ?S = (fst ?S, snd ?S)"
    by (simp add: example_world_def)
  note c = t [THEN conjunct2, THEN conjunct2, THEN conjunct2, THEN mp, OF hyp, THEN conjunct1]
  have calls: "select_calls (snd ?S) = [(6, Some {3, 5}, None, None, None)]"
    unfolding c by (simp add: select_maxfds_def fdset_of_def example_world_def)
  show ?thesis
    apply (intro conjI)
         apply (simp add: select_eval)
        apply (rule keep)
       apply (rule calls)
      apply (simp add: select_eval)
     apply (simp add: select_eval)
    apply (simp add: select_eval)
    done
qed

end
